theory Spec2Isabelle
  imports Main "HOL-Library.AList"
begin

section \<open>JavaScript values\<close>

text \<open>
  The provider adapters of riotprompt work on plain JavaScript values: the JSON Schema of a
  structured-output request is typed \<open>any\<close>, and so is the content of a chat message.
  A value is \<open>undefined\<close>, \<open>null\<close>, a boolean, a number, a string, an array or an object.
  An object is the list of its own enumerable properties in enumeration order; \<open>getProp\<close>
  reads the binding of a key, \<open>setProp\<close> overwrites it in place or appends a new one
  (as an assignment \<open>o[k] = v\<close> does; the adapters assign new keys in enumeration
  order), \<open>deleteProp\<close> removes it.  The keys of an object are distinct.  Strings are lists
  of 8-bit characters, so the model speaks about ASCII text; numbers are integers, which
  is all that the truthiness tests of the adapters can see of a number besides \<open>NaN\<close>.
  The accessor property \<open>__proto__\<close> inherited from \<open>Object.prototype\<close> is not part of
  the model: every key is an ordinary data property.
\<close>

datatype json =
    JUndefined
  | JNull
  | JBool bool
  | JNum int
  | JStr string
  | JArr "json list"
  | JObj "(string \<times> json) list"

text \<open>The values that a condition \<open>if (v)\<close> or \<open>!v\<close> treats as true.\<close>

fun truthy :: "json \<Rightarrow> bool" where
  "truthy JUndefined = False"
| "truthy JNull = False"
| "truthy (JBool b) = b"
| "truthy (JNum n) = (n \<noteq> 0)"
| "truthy (JStr s) = (s \<noteq> [])"
| "truthy (JArr xs) = True"
| "truthy (JObj kvs) = True"

text \<open>\<open>String.prototype.toUpperCase\<close> on ASCII text.\<close>

definition toUpperChar :: "char \<Rightarrow> char" where
  "toUpperChar c =
     (case map_of (zip ''abcdefghijklmnopqrstuvwxyz'' ''ABCDEFGHIJKLMNOPQRSTUVWXYZ'') c of
        Some u \<Rightarrow> u
      | None \<Rightarrow> c)"

definition toUpperCase :: "string \<Rightarrow> string" where
  "toUpperCase s = map toUpperChar s"

text \<open>
  The keys under which the elements of an array and the characters of a string are
  enumerated: the decimal numerals \<open>0\<close>, \<open>1\<close>, \<open>2\<close>, ...
\<close>

definition digitChar :: "nat \<Rightarrow> char" where
  "digitChar d = ''0123456789'' ! d"

function decimal :: "nat \<Rightarrow> string" where
  "decimal n =
     (if n < 10 then [digitChar n]
      else decimal (n div 10) @ [digitChar (n mod 10)])"
  by pat_completeness auto
termination
  by (relation "measure id") auto

declare decimal.simps [simp del]

definition indexed :: "'a list \<Rightarrow> (string \<times> 'a) list" where
  "indexed xs = zip (map decimal [0..<length xs]) xs"

text \<open>
  The own enumerable properties that the spread \<open>{ ...v }\<close> copies and that
  \<open>Object.entries(v)\<close> lists, for a value \<open>v\<close> that is neither \<open>null\<close> nor
  \<open>undefined\<close>.
\<close>

fun ownEntries :: "json \<Rightarrow> (string \<times> json) list" where
  "ownEntries (JObj kvs) = kvs"
| "ownEntries (JArr xs) = indexed xs"
| "ownEntries (JStr s) = indexed (map (\<lambda>c. JStr [c]) s)"
| "ownEntries _ = []"

definition getProp :: "(string \<times> json) list \<Rightarrow> string \<Rightarrow> json" where
  "getProp kvs k = (case map_of kvs k of Some v \<Rightarrow> v | None \<Rightarrow> JUndefined)"

definition setProp :: "string \<Rightarrow> json \<Rightarrow> (string \<times> json) list \<Rightarrow> (string \<times> json) list" where
  "setProp k v kvs = AList.update k v kvs"

definition deleteProp :: "string \<Rightarrow> (string \<times> json) list \<Rightarrow> (string \<times> json) list" where
  "deleteProp k kvs = AList.delete k kvs"

section \<open>The Gemini adapter: \<open>mapSchema\<close>\<close>

text \<open>
  \<open>src/execution/gemini.ts\<close>, lines 40 to 68.  The copy \<open>newSchema\<close> is threaded
  through the four updates in the order of the source: the \<open>type\<close> field, the
  \<open>properties\<close> object, the \<open>items\<close> schema, and the two deletions.
\<close>

definition upperType :: "(string \<times> json) list \<Rightarrow> (string \<times> json) list" where
  "upperType newSchema =
     (if truthy (getProp newSchema ''type'')
      then setProp ''type''
             (case getProp newSchema ''type'' of
                JStr t \<Rightarrow> JStr (toUpperCase t)
              | v \<Rightarrow> v) newSchema
      else newSchema)"

lemma getProp_size: "size (getProp kvs k) \<le> size_list (size_prod (\<lambda>x. 0) size) kvs"
  unfolding getProp_def
  by (induction kvs) (auto split: option.splits)

lemma getProp_upperType: "k \<noteq> ''type'' \<Longrightarrow> getProp (upperType kvs) k = getProp kvs k"
  by (simp add: upperType_def getProp_def setProp_def update_conv')

lemma getProp_setProp_other: "k \<noteq> k' \<Longrightarrow> getProp (setProp k' v kvs) k = getProp kvs k"
  by (simp add: getProp_def setProp_def update_conv')

lemma indexed_size: "(k, v) \<in> set (indexed xs) \<Longrightarrow> size v \<le> size_list size xs"
  unfolding indexed_def
  by (auto simp: in_set_zip
      dest!: nth_mem[of _ xs] size_list_estimation'[where f=size and y="size v"])

lemma ownEntries_size: "(k, v) \<in> set (ownEntries p) \<Longrightarrow> size v \<le> size p"
proof (cases p)
  case (JObj kvs)
  assume "(k, v) \<in> set (ownEntries p)"
  with JObj have "(k, v) \<in> set kvs" by simp
  then have "size v \<le> size_list (size_prod (\<lambda>x. 0) size) kvs"
    by (induction kvs) auto
  with JObj show ?thesis by simp
next
  case (JArr xs)
  assume "(k, v) \<in> set (ownEntries p)"
  with JArr show ?thesis using indexed_size[of k v xs] by simp
next
  case (JStr s)
  assume "(k, v) \<in> set (ownEntries p)"
  with JStr show ?thesis by (auto simp: indexed_def in_set_zip)
qed auto

definition isDigit :: "char \<Rightarrow> bool" where
  "isDigit c = (c \<in> set ''0123456789'')"

lemma digitChar_digit: "d < 10 \<Longrightarrow> isDigit (digitChar d)"
  unfolding digitChar_def isDigit_def by (rule nth_mem) simp

lemma decimal_digits: "c \<in> set (decimal n) \<Longrightarrow> isDigit c"
proof (induction n rule: decimal.induct)
  case (1 n)
  show ?case
  proof (cases "n < 10")
    case True
    with "1.prems" have "c = digitChar n" by (simp add: decimal.simps[of n])
    with True digitChar_digit show ?thesis by blast
  next
    case False
    with "1.prems" have "c \<in> set (decimal (n div 10)) \<or> c = digitChar (n mod 10)"
      by (subst (asm) decimal.simps) auto
    then show ?thesis
    proof
      assume "c \<in> set (decimal (n div 10))"
      with "1.IH" False show ?thesis by simp
    next
      assume "c = digitChar (n mod 10)"
      then show ?thesis using digitChar_digit[of "n mod 10"] by simp
    qed
  qed
qed

lemma indexed_key_digits: "(k, v) \<in> set (indexed xs) \<Longrightarrow> c \<in> set k \<Longrightarrow> isDigit c"
  unfolding indexed_def by (auto simp: in_set_zip dest: decimal_digits)

lemma getProp_indexed_named:
  assumes "c \<in> set k" and "\<not> isDigit c"
  shows "getProp (indexed xs) k = JUndefined"
proof (cases "map_of (indexed xs) k")
  case None
  then show ?thesis by (simp add: getProp_def)
next
  case (Some v)
  then have "(k, v) \<in> set (indexed xs)" by (rule map_of_SomeD)
  from indexed_key_digits[OF this assms(1)] assms(2) show ?thesis by simp
qed

lemma getProp_ownEntries_size:
  assumes "c \<in> set k" and "\<not> isDigit c" and "truthy (getProp (ownEntries s) k)"
  shows "size (getProp (ownEntries s) k) < size s"
proof (cases s)
  case (JObj kvs)
  then show ?thesis using getProp_size[of kvs k] by simp
next
  case (JArr xs)
  with assms show ?thesis by (simp add: getProp_indexed_named)
next
  case (JStr t)
  with assms show ?thesis by (simp add: getProp_indexed_named)
qed (use assms in \<open>simp_all add: getProp_def\<close>)

lemma properties_size:
  "truthy (getProp (ownEntries s) ''properties'') \<Longrightarrow>
   size (getProp (ownEntries s) ''properties'') < size s"
  by (rule getProp_ownEntries_size[where c = "CHR ''p''"]) (simp_all add: isDigit_def)

lemma items_size:
  "truthy (getProp (ownEntries s) ''items'') \<Longrightarrow>
   size (getProp (ownEntries s) ''items'') < size s"
  by (rule getProp_ownEntries_size[where c = "CHR ''i''"]) (simp_all add: isDigit_def)

function mapSchema :: "json \<Rightarrow> json" where
  "mapSchema s =
     (if \<not> truthy s then JUndefined
      else
        let newSchema0 = ownEntries s;
            newSchema1 = upperType newSchema0;
            newSchema2 =
              (if truthy (getProp newSchema1 ''properties'')
               then setProp ''properties''
                      (JObj (map (\<lambda>(key, val). (key, mapSchema val))
                                 (ownEntries (getProp newSchema1 ''properties''))))
                      newSchema1
               else newSchema1);
            newSchema3 =
              (if truthy (getProp newSchema2 ''items'')
               then setProp ''items'' (mapSchema (getProp newSchema2 ''items'')) newSchema2
               else newSchema2)
        in JObj (deleteProp ''$schema'' (deleteProp ''additionalProperties'' newSchema3)))"
  by pat_completeness auto
termination
proof (relation "measure size")
  show "wf (measure size)" by simp
next
  fix s :: json and n0 n1 kv key val
  assume n0: "n0 = ownEntries s" and n1: "n1 = upperType n0"
    and t: "truthy (getProp n1 ''properties'')"
    and kv: "kv \<in> set (ownEntries (getProp n1 ''properties''))" "(key, val) = kv"
  have p: "getProp n1 ''properties'' = getProp (ownEntries s) ''properties''"
    using n0 n1 by (simp add: getProp_upperType)
  from kv have "size val \<le> size (getProp n1 ''properties'')"
    using ownEntries_size[of key val] by auto
  also have "\<dots> < size s"
    using t properties_size[of s] by (simp add: p)
  finally show "(val, s) \<in> measure size" by simp
next
  fix s :: json and n0 n1 n2
  assume n0: "n0 = ownEntries s" and n1: "n1 = upperType n0"
    and n2: "n2 = (if truthy (getProp n1 ''properties'')
          then setProp ''properties''
                (JObj (map (\<lambda>(key, val). (key, mapSchema val))
                    (ownEntries (getProp n1 ''properties'')))) n1
          else n1)"
    and t: "truthy (getProp n2 ''items'')"
  have "getProp n2 ''items'' = getProp n1 ''items''"
    using n2 by (simp add: getProp_setProp_other)
  then have p: "getProp n2 ''items'' = getProp (ownEntries s) ''items''"
    using n0 n1 by (simp add: getProp_upperType)
  show "(getProp n2 ''items'', s) \<in> measure size"
    using t items_size[of s] by (simp add: p)
qed

declare mapSchema.simps [simp del]

section \<open>Chat requests\<close>

text \<open>
  The provider-neutral request of \<open>src/chat\<close>: an ordered list of messages, an optional
  model name and an optional structured-output descriptor.  The content of a message is
  a JavaScript value, because every adapter tests \<open>typeof msg.content === 'string'\<close>
  before it uses it.  A structured-output descriptor is
  \<open>{ type: 'json_schema', json_schema: { name, description?, schema } }\<close>; any other
  descriptor is kept with its \<open>type\<close> tag only.
\<close>

datatype role = System | Developer | User | Assistant

record message =
  role :: role
  content :: json
  name :: "string option"

record json_schema =
  schema_name :: string
  description :: "string option"
  schema :: json

datatype response_format = JsonSchemaFormat json_schema | OtherFormat string

record request =
  messages :: "message list"
  model :: "string option"
  responseFormat :: "response_format option"

text \<open>
  \<open>src/execution/gemini.ts\<close>, lines 19 to 71: the generation configuration starts as
  the empty object and receives \<open>responseMimeType\<close> and \<open>responseSchema\<close> when the
  request asks for a JSON Schema.
\<close>

definition geminiGenerationConfig :: "request \<Rightarrow> (string \<times> json) list" where
  "geminiGenerationConfig request =
     (case responseFormat request of
        Some (JsonSchemaFormat js) \<Rightarrow>
          [(''responseMimeType'', JStr ''application/json''),
           (''responseSchema'', mapSchema (schema js))]
      | _ \<Rightarrow> [])"

text \<open>
  The nodes of a schema that the recursion of \<open>mapSchema\<close> visits are addressed by paths:
  a step goes to the value of one key of the \<open>properties\<close> object, or to the \<open>items\<close>
  schema.
\<close>

datatype step = Property string | Items

fun child :: "json \<Rightarrow> step \<Rightarrow> json option" where
  "child (JObj kvs) (Property k) =
     (case map_of kvs ''properties'' of
        Some (JObj props) \<Rightarrow> map_of props k
      | _ \<Rightarrow> None)"
| "child (JObj kvs) Items = map_of kvs ''items''"
| "child _ _ = None"

fun nodeAt :: "json \<Rightarrow> step list \<Rightarrow> json option" where
  "nodeAt s [] = Some s"
| "nodeAt s (st # path) = (case child s st of None \<Rightarrow> None | Some c \<Rightarrow> nodeAt c path)"

lemma map_of_setProp: "map_of (setProp k v kvs) = (map_of kvs)(k \<mapsto> v)"
  by (simp add: setProp_def update_conv')

lemma map_of_deleteProp: "map_of (deleteProp k kvs) = (map_of kvs)(k := None)"
  by (simp add: deleteProp_def delete_conv')

lemma map_of_upperType:
  "map_of (upperType kvs) k =
     (if k = ''type'' then
        (case map_of kvs ''type'' of
           Some (JStr t) \<Rightarrow> Some (JStr (toUpperCase t))
         | r \<Rightarrow> r)
      else map_of kvs k)"
  by (auto simp: upperType_def getProp_def map_of_setProp toUpperCase_def
      split: option.splits json.splits)

lemma map_of_mapped:
  "map_of (map (\<lambda>(key, val). (key, f val)) kvs) k = map_option f (map_of kvs k)"
  by (induction kvs) auto

lemma mapSchema_JObj:
  "\<exists>kvs'. mapSchema (JObj kvs) = JObj kvs' \<and>
     map_of kvs' ''additionalProperties'' = None \<and>
     map_of kvs' ''$schema'' = None \<and>
     (\<forall>t. map_of kvs ''type'' = Some (JStr t) \<longrightarrow> map_of kvs' ''type'' = Some (JStr (toUpperCase t))) \<and>
     (\<forall>props. map_of kvs ''properties'' = Some (JObj props) \<longrightarrow>
        map_of kvs' ''properties'' = Some (JObj (map (\<lambda>(key, val). (key, mapSchema val)) props))) \<and>
     (\<forall>i. map_of kvs ''items'' = Some i \<longrightarrow> truthy i \<longrightarrow> map_of kvs' ''items'' = Some (mapSchema i))"
  apply (subst mapSchema.simps)
  apply (simp add: Let_def map_of_deleteProp map_of_setProp map_of_upperType getProp_def
      split: option.splits json.splits)
  done


lemma child_mapSchema:
  assumes "child s st = Some c" and "truthy c \<or> st \<noteq> Items"
  shows "child (mapSchema s) st = Some (mapSchema c)"
proof -
  from assms(1) obtain kvs where s: "s = JObj kvs" by (cases s) auto
  from mapSchema_JObj[of kvs] obtain kvs' where m: "mapSchema (JObj kvs) = JObj kvs'"
    and props: "\<And>props. map_of kvs ''properties'' = Some (JObj props) \<Longrightarrow>
        map_of kvs' ''properties'' = Some (JObj (map (\<lambda>(key, val). (key, mapSchema val)) props))"
    and items: "\<And>i. map_of kvs ''items'' = Some i \<Longrightarrow> truthy i \<Longrightarrow>
        map_of kvs' ''items'' = Some (mapSchema i)"
    by blast
  show ?thesis
  proof (cases st)
    case (Property k)
    with assms(1) s obtain ps where ps: "map_of kvs ''properties'' = Some (JObj ps)"
      and c: "map_of ps k = Some c"
      by (auto split: option.splits json.splits)
    from props[OF ps] c show ?thesis
      by (simp add: s m Property map_of_mapped)
  next
    case Items
    with assms s have "map_of kvs ''items'' = Some c" "truthy c" by auto
    from items[OF this] show ?thesis by (simp add: s m Items)
  qed
qed

lemma nodeAt_object_truthy: "nodeAt s path = Some (JObj kvs) \<Longrightarrow> truthy s"
  by (cases path; cases s) (auto split: option.splits)

lemma nodeAt_mapSchema:
  "nodeAt s path = Some (JObj kvs) \<Longrightarrow> nodeAt (mapSchema s) path = Some (mapSchema (JObj kvs))"
proof (induction path arbitrary: s)
  case Nil
  then show ?case by simp
next
  case (Cons st path)
  then obtain c where c: "child s st = Some c" and n: "nodeAt c path = Some (JObj kvs)"
    by (auto split: option.splits)
  from n have "truthy c" by (rule nodeAt_object_truthy)
  with c have "child (mapSchema s) st = Some (mapSchema c)" by (simp add: child_mapSchema)
  with Cons.IH[OF n] show ?case by simp
qed

definition scenarioC_in :: json where
  "scenarioC_in =
     JObj [(''type'', JStr ''object''),
           (''properties'', JObj [(''x'', JObj [(''type'', JStr ''string'')])])]"

definition scenarioC_out :: json where
  "scenarioC_out =
     JObj [(''type'', JStr ''OBJECT''),
           (''properties'', JObj [(''x'', JObj [(''type'', JStr ''STRING'')])])]"

lemma scenarioC: "mapSchema scenarioC_in = scenarioC_out"
  by code_simp

text \<open>
  Claim C1.  When the response format of a request is a JSON Schema, the Gemini adapter
  attaches \<open>mapSchema\<close> of that schema as \<open>responseSchema\<close>.  Every object node of the
  schema that is reached through \<open>properties\<close> values and \<open>items\<close> is again an object
  node at the same path of the result; there it has neither an \<open>additionalProperties\<close>
  nor a \<open>$schema\<close> key, and a \<open>type\<close> that was a string is that string in upper
  case.  The schema of Scenario C is mapped to the schema the scenario gives.
\<close>

theorem gemini_schema_normalised:
  assumes "responseFormat request = Some (JsonSchemaFormat js)"
  shows "getProp (geminiGenerationConfig request) ''responseSchema'' = mapSchema (schema js) \<and>
     (\<forall>path node. nodeAt (schema js) path = Some (JObj node) \<longrightarrow>
        (\<exists>node'. nodeAt (mapSchema (schema js)) path = Some (JObj node') \<and>
           map_of node' ''additionalProperties'' = None \<and>
           map_of node' ''$schema'' = None \<and>
           (\<forall>t. map_of node ''type'' = Some (JStr t) \<longrightarrow>
                map_of node' ''type'' = Some (JStr (toUpperCase t))))) \<and>
     mapSchema scenarioC_in = scenarioC_out"
proof (intro conjI allI impI)
  show "getProp (geminiGenerationConfig request) ''responseSchema'' = mapSchema (schema js)"
    using assms by (simp add: geminiGenerationConfig_def getProp_def)
next
  fix path node
  assume "nodeAt (schema js) path = Some (JObj node)"
  then have n: "nodeAt (mapSchema (schema js)) path = Some (mapSchema (JObj node))"
    by (rule nodeAt_mapSchema)
  from mapSchema_JObj[of node] obtain node' where "mapSchema (JObj node) = JObj node'"
    and "map_of node' ''additionalProperties'' = None" and "map_of node' ''$schema'' = None"
    and "\<forall>t. map_of node ''type'' = Some (JStr t) \<longrightarrow>
                map_of node' ''type'' = Some (JStr (toUpperCase t))"
    by blast
  with n show "\<exists>node'. nodeAt (mapSchema (schema js)) path = Some (JObj node') \<and>
           map_of node' ''additionalProperties'' = None \<and>
           map_of node' ''$schema'' = None \<and>
           (\<forall>t. map_of node ''type'' = Some (JStr t) \<longrightarrow>
                map_of node' ''type'' = Some (JStr (toUpperCase t)))"
    by simp
next
  show "mapSchema scenarioC_in = scenarioC_out" by (rule scenarioC)
qed

definition exampleSchema :: json where
  "exampleSchema =
     JObj [(''$schema'', JStr ''http://json-schema.org/draft-07/schema#''),
           (''type'', JStr ''object''),
           (''properties'',
              JObj [(''tags'',
                JObj [(''type'', JStr ''array''),
                      (''items'', JObj [(''type'', JStr ''string''),
                                        (''additionalProperties'', JBool False)])])]),
           (''additionalProperties'', JBool False)]"

definition exampleRequest :: request where
  "exampleRequest =
     \<lparr> messages = [], model = None,
       responseFormat = Some (JsonSchemaFormat
         \<lparr> schema_name = ''tags'', description = None, schema = exampleSchema \<rparr>) \<rparr>"

theorem gemini_schema_normalised_witness:
  "responseFormat exampleRequest = Some (JsonSchemaFormat
         \<lparr> schema_name = ''tags'', description = None, schema = exampleSchema \<rparr>) \<and>
   nodeAt exampleSchema [Property ''tags'', Items] =
     Some (JObj [(''type'', JStr ''string''), (''additionalProperties'', JBool False)]) \<and>
   (\<exists>node'. nodeAt (mapSchema exampleSchema) [Property ''tags'', Items] = Some (JObj node') \<and>
      map_of node' ''additionalProperties'' = None \<and>
      map_of node' ''$schema'' = None \<and>
      map_of node' ''type'' = Some (JStr ''STRING''))"
proof -
  let ?js = "\<lparr> schema_name = ''tags'', description = None, schema = exampleSchema \<rparr>"
  let ?node = "[(''type'', JStr ''string''), (''additionalProperties'', JBool False)]"
  let ?path = "[Property ''tags'', Items]"
  have r: "responseFormat exampleRequest = Some (JsonSchemaFormat ?js)"
    by (simp add: exampleRequest_def)
  have n: "nodeAt (schema ?js) ?path = Some (JObj ?node)"
    by (simp add: exampleSchema_def)
  have t: "map_of ?node ''type'' = Some (JStr ''string'')"
    by simp
  have u: "toUpperCase ''string'' = ''STRING''"
    by (simp add: toUpperCase_def toUpperChar_def)
  from gemini_schema_normalised[OF r] have
    "\<forall>path node. nodeAt (schema ?js) path = Some (JObj node) \<longrightarrow>
        (\<exists>node'. nodeAt (mapSchema (schema ?js)) path = Some (JObj node') \<and>
           map_of node' ''additionalProperties'' = None \<and>
           map_of node' ''$schema'' = None \<and>
           (\<forall>t. map_of node ''type'' = Some (JStr t) \<longrightarrow>
                map_of node' ''type'' = Some (JStr (toUpperCase t))))"
    by (rule conjunct2[THEN conjunct1])
  from this[rule_format, OF n] obtain node' where
    "nodeAt (mapSchema (schema ?js)) ?path = Some (JObj node')"
    "map_of node' ''additionalProperties'' = None"
    "map_of node' ''$schema'' = None"
    "\<forall>t. map_of ?node ''type'' = Some (JStr t) \<longrightarrow>
                map_of node' ''type'' = Some (JStr (toUpperCase t))"
    by blast
  with t u have "\<exists>node'. nodeAt (mapSchema exampleSchema) ?path = Some (JObj node') \<and>
      map_of node' ''additionalProperties'' = None \<and>
      map_of node' ''$schema'' = None \<and>
      map_of node' ''type'' = Some (JStr ''STRING'')"
    by (metis json_schema.select_convs(3))
  with r n show ?thesis by (simp only: json_schema.select_convs simp_thms)
qed


section \<open>\<open>JSON.stringify\<close> and \<open>trim\<close>\<close>

text \<open>
  The adapters call two built-ins of the language on strings and values.
  \<open>JSON.stringify(v)\<close> and \<open>JSON.stringify(v, null, 2)\<close> follow the serialisation
  algorithm of ECMAScript on the values of this model: \<open>gap\<close> is the indentation unit
  (empty, or two spaces), \<open>indent\<close> the current indentation; inside an array
  \<open>undefined\<close> is written \<open>null\<close>, inside an object a property whose value is
  \<open>undefined\<close> is left out.  For the value \<open>undefined\<close> itself the built-in returns
  \<open>undefined\<close>; the model gives the text \<open>undefined\<close>, which is what the string
  concatenation of the adapters makes of it.
\<close>

definition LF :: char where "LF = CHR 0x0A"

definition hexDigit :: "nat \<Rightarrow> char" where
  "hexDigit d = ''0123456789abcdef'' ! d"

definition quoteChar :: "char \<Rightarrow> string" where
  "quoteChar c =
     (if c = CHR 0x08 then [CHR 0x5C, CHR ''b'']
      else if c = CHR 0x09 then [CHR 0x5C, CHR ''t'']
      else if c = CHR 0x0A then [CHR 0x5C, CHR ''n'']
      else if c = CHR 0x0C then [CHR 0x5C, CHR ''f'']
      else if c = CHR 0x0D then [CHR 0x5C, CHR ''r'']
      else if c = CHR 0x22 then [CHR 0x5C, CHR 0x22]
      else if c = CHR 0x5C then [CHR 0x5C, CHR 0x5C]
      else if (of_char c :: nat) < 32
        then [CHR 0x5C, CHR ''u'', CHR ''0'', CHR ''0'',
              hexDigit ((of_char c :: nat) div 16), hexDigit ((of_char c :: nat) mod 16)]
      else [c])"

definition quoteJSONString :: "string \<Rightarrow> string" where
  "quoteJSONString s = [CHR 0x22] @ concat (map quoteChar s) @ [CHR 0x22]"

definition numberToString :: "int \<Rightarrow> string" where
  "numberToString n = (if n < 0 then ''-'' @ decimal (nat (- n)) else decimal (nat n))"

fun joinWith :: "string \<Rightarrow> string list \<Rightarrow> string" where
  "joinWith sep [] = []"
| "joinWith sep [x] = x"
| "joinWith sep (x # y # ys) = x @ sep @ joinWith sep (y # ys)"

definition wrapJSON :: "string \<Rightarrow> string \<Rightarrow> string \<Rightarrow> string \<Rightarrow> string list \<Rightarrow> string" where
  "wrapJSON opening closing gap stepback partial =
     (if partial = [] then opening @ closing
      else if gap = [] then opening @ joinWith '','' partial @ closing
      else opening @ [LF] @ stepback @ gap
             @ joinWith ('','' @ [LF] @ stepback @ gap) partial
             @ [LF] @ stepback @ closing)"

fun serializeJSON :: "string \<Rightarrow> string \<Rightarrow> json \<Rightarrow> string option" where
  "serializeJSON gap indent JUndefined = None"
| "serializeJSON gap indent JNull = Some ''null''"
| "serializeJSON gap indent (JBool b) = Some (if b then ''true'' else ''false'')"
| "serializeJSON gap indent (JNum n) = Some (numberToString n)"
| "serializeJSON gap indent (JStr s) = Some (quoteJSONString s)"
| "serializeJSON gap indent (JArr xs) =
     Some (wrapJSON ''['' '']'' gap indent
       (map (\<lambda>x. case serializeJSON gap (indent @ gap) x of
                    None \<Rightarrow> ''null''
                  | Some t \<Rightarrow> t) xs))"
| "serializeJSON gap indent (JObj kvs) =
     Some (wrapJSON ''{'' ''}'' gap indent
       (concat (map (\<lambda>(k, v). case serializeJSON gap (indent @ gap) v of
                    None \<Rightarrow> []
                  | Some t \<Rightarrow> [quoteJSONString k @ '':'' @ (if gap = [] then [] else '' '') @ t])
                kvs)))"

definition JSON_stringify :: "json \<Rightarrow> string" where
  "JSON_stringify v = (case serializeJSON [] [] v of Some t \<Rightarrow> t | None \<Rightarrow> ''undefined'')"

definition JSON_stringify_indent2 :: "json \<Rightarrow> string" where
  "JSON_stringify_indent2 v =
     (case serializeJSON ''  '' [] v of Some t \<Rightarrow> t | None \<Rightarrow> ''undefined'')"


text \<open>
  \<open>String.prototype.trim\<close> removes white space and line terminators from both ends;
  on ASCII text these are the characters tab, line feed, vertical tab, form feed,
  carriage return and space.
\<close>

definition isWhiteSpace :: "char \<Rightarrow> bool" where
  "isWhiteSpace c = (c \<in> set [CHR 0x09, CHR 0x0A, CHR 0x0B, CHR 0x0C, CHR 0x0D, CHR 0x20])"

definition trim :: "string \<Rightarrow> string" where
  "trim s = rev (dropWhile isWhiteSpace (rev (dropWhile isWhiteSpace s)))"

section \<open>The provider adapters\<close>

text \<open>
  Every adapter has the same shape (\<open>execute(request, options)\<close>): it throws when no API
  key is configured, builds the argument of the provider's SDK call from the request and
  the options, awaits the call, and builds its result from the response.  The definitions
  below are the argument that is sent and the result that is returned.  The operator
  \<open>a || b\<close> on optional strings takes \<open>b\<close> when \<open>a\<close> is \<open>undefined\<close> or empty.
\<close>

record execution_options =
  apiKey :: "string option"
  optModel :: "string option"
  temperature :: json
  maxTokens :: json

definition orString :: "string option \<Rightarrow> string option \<Rightarrow> string option" where
  "orString a b = (if a = None \<or> a = Some [] then b else a)"

definition orDefault :: "string option \<Rightarrow> string \<Rightarrow> string" where
  "orDefault a d = (case a of None \<Rightarrow> d | Some s \<Rightarrow> if s = [] then d else s)"

definition isJsonSchema :: "request \<Rightarrow> bool" where
  "isJsonSchema request =
     (case responseFormat request of Some (JsonSchemaFormat js) \<Rightarrow> True | _ \<Rightarrow> False)"

text \<open>
  \<open>typeof msg.content === 'string' ? msg.content : JSON.stringify(msg.content)\<close>,
  the text that all three adapters send for a message.
\<close>

definition messageText :: "message \<Rightarrow> string" where
  "messageText msg = (case content msg of JStr s \<Rightarrow> s | v \<Rightarrow> JSON_stringify v)"

subsection \<open>Anthropic: \<open>src/execution/anthropic.ts\<close>\<close>

text \<open>
  Lines 20 to 33 are a loop over the messages with two accumulators, the system prompt
  and the list of messages to send; lines 35 to 49 build the argument of
  \<open>client.messages.create\<close>; lines 51 to 73 build the result.  A field whose value is
  \<open>undefined\<close>, or that the conditional spread leaves out, is \<open>None\<close>.
\<close>

record anthropic_message =
  am_role :: role
  am_content :: string

record anthropic_tool =
  tool_name :: string
  tool_description :: string
  input_schema :: json

record anthropic_tool_choice =
  choice_type :: string
  choice_name :: string

record anthropic_params =
  a_model :: string
  a_system :: "string option"
  a_messages :: "anthropic_message list"
  a_max_tokens :: json
  a_temperature :: json
  a_tools :: "anthropic_tool list option"
  a_tool_choice :: "anthropic_tool_choice option"

fun anthropicLoop ::
  "message list \<Rightarrow> string \<times> anthropic_message list \<Rightarrow> string \<times> anthropic_message list" where
  "anthropicLoop [] st = st"
| "anthropicLoop (msg # rest) (systemPrompt, out) =
     anthropicLoop rest
       (if role msg = System \<or> role msg = Developer
        then (systemPrompt @ messageText msg @ ''\<newline>\<newline>'', out)
        else (systemPrompt, out @ [\<lparr> am_role = role msg, am_content = messageText msg \<rparr>]))"

definition anthropicCreateParams :: "execution_options \<Rightarrow> request \<Rightarrow> anthropic_params" where
  "anthropicCreateParams options request =
     (let (systemPrompt, out) = anthropicLoop (messages request) ([], []) in
      \<lparr> a_model = orDefault (orString (optModel options) (model request)) ''claude-3-opus-20240229'',
        a_system = (if trim systemPrompt = [] then None else Some (trim systemPrompt)),
        a_messages = out,
        a_max_tokens = (if truthy (maxTokens options) then maxTokens options else JNum 4096),
        a_temperature = temperature options,
        a_tools =
          (case responseFormat request of
             Some (JsonSchemaFormat js) \<Rightarrow>
               Some [\<lparr> tool_name = schema_name js,
                       tool_description =
                         orDefault (description js) ''Output data in this structured format'',
                       input_schema = schema js \<rparr>]
           | _ \<Rightarrow> None),
        a_tool_choice =
          (case responseFormat request of
             Some (JsonSchemaFormat js) \<Rightarrow>
               Some \<lparr> choice_type = ''tool'', choice_name = schema_name js \<rparr>
           | _ \<Rightarrow> None) \<rparr>)"

text \<open>
  The response carries a list of content blocks.  Reading \<open>.type\<close> of the first block
  of an empty list throws a \<open>TypeError\<close>.
\<close>

datatype content_block = TextBlock string | ToolUseBlock string json | OtherBlock string

fun isToolUse :: "content_block \<Rightarrow> bool" where
  "isToolUse (ToolUseBlock n i) = True"
| "isToolUse _ = False"

record anthropic_response =
  r_content :: "content_block list"
  r_model :: string
  r_input_tokens :: nat
  r_output_tokens :: nat

record provider_response =
  p_content :: string
  p_model :: string
  p_usage :: "(nat \<times> nat) option"

datatype exec_error = TypeError

definition anthropicText :: "request \<Rightarrow> anthropic_response \<Rightarrow> exec_error + string" where
  "anthropicText request response =
     (if isJsonSchema request then
        (case find isToolUse (r_content response) of
           Some (ToolUseBlock n i) \<Rightarrow> Inr (JSON_stringify_indent2 i)
         | _ \<Rightarrow> Inr [])
      else
        (case r_content response of
           [] \<Rightarrow> Inl TypeError
         | contentBlock # _ \<Rightarrow>
             Inr (case contentBlock of TextBlock t \<Rightarrow> t | _ \<Rightarrow> [])))"

definition anthropicResult :: "request \<Rightarrow> anthropic_response \<Rightarrow> exec_error + provider_response" where
  "anthropicResult request response =
     (case anthropicText request response of
        Inl e \<Rightarrow> Inl e
      | Inr text \<Rightarrow>
          Inr \<lparr> p_content = text, p_model = r_model response,
                p_usage = Some (r_input_tokens response, r_output_tokens response) \<rparr>)"

subsection \<open>OpenAI: \<open>execute\<close> of \<open>OpenAIProvider\<close>\<close>

text \<open>
  Lines 21 to 34 map every message to the message that is sent; lines 36 to 42 build the
  argument of \<open>client.chat.completions.create\<close>.
\<close>

record openai_message =
  o_role :: role
  o_content :: string
  o_name :: "string option"

record openai_params =
  o_model :: string
  o_messages :: "openai_message list"
  o_temperature :: json
  o_max_tokens :: json
  o_response_format :: "response_format option"

definition openaiMessage :: "message \<Rightarrow> openai_message" where
  "openaiMessage msg =
     \<lparr> o_role = (if role msg = Developer then System else role msg),
       o_content = messageText msg,
       o_name = name msg \<rparr>"

definition openaiCreateParams :: "execution_options \<Rightarrow> request \<Rightarrow> openai_params" where
  "openaiCreateParams options request =
     \<lparr> o_model = orDefault (orString (optModel options) (model request)) ''gpt-4'',
       o_messages = map openaiMessage (messages request),
       o_temperature = temperature options,
       o_max_tokens = maxTokens options,
       o_response_format = responseFormat request \<rparr>"

subsection \<open>What the Anthropic adapter sends\<close>

definition isSystemRole :: "message \<Rightarrow> bool" where
  "isSystemRole msg = (role msg = System \<or> role msg = Developer)"

lemma anthropicLoop_eq:
  "anthropicLoop msgs (sp, out) =
     (sp @ concat (map (\<lambda>m. messageText m @ ''\<newline>\<newline>'') (filter isSystemRole msgs)),
      out @ map (\<lambda>m. \<lparr> am_role = role m, am_content = messageText m \<rparr>)
              (filter (\<lambda>m. \<not> isSystemRole m) msgs))"
  by (induction msgs arbitrary: sp out) (auto simp: isSystemRole_def)


lemma anthropic_system_eq:
  "a_system (anthropicCreateParams options request) =
     (let sp = trim (concat (map (\<lambda>m. messageText m @ ''\<newline>\<newline>'')
                                 (filter isSystemRole (messages request))))
      in if sp = [] then None else Some sp)"
  by (simp add: anthropicCreateParams_def anthropicLoop_eq Let_def)

lemma anthropic_messages_eq:
  "a_messages (anthropicCreateParams options request) =
     map (\<lambda>m. \<lparr> am_role = role m, am_content = messageText m \<rparr>)
         (filter (\<lambda>m. \<not> isSystemRole m) (messages request))"
  by (simp add: anthropicCreateParams_def anthropicLoop_eq Let_def)

lemma trim_whitespace: "\<forall>c \<in> set s. isWhiteSpace c \<Longrightarrow> trim s = []"
proof -
  assume "\<forall>c \<in> set s. isWhiteSpace c"
  then have d: "dropWhile isWhiteSpace s = []" by (simp add: dropWhile_eq_Nil_conv)
  show ?thesis unfolding trim_def d by simp
qed

definition noOptions :: execution_options where
  "noOptions = \<lparr> apiKey = Some ''key'', optModel = None, temperature = JUndefined,
                 maxTokens = JUndefined \<rparr>"

definition listMessage :: message where
  "listMessage = \<lparr> role = User, content = JArr [JStr ''a'', JStr ''b''], name = None \<rparr>"

definition listRequest :: request where
  "listRequest = \<lparr> messages = [listMessage], model = None, responseFormat = None \<rparr>"

text \<open>
  Claim C4, as stated, fails.  A message whose content is the list \<open>["a","b"]\<close> is sent
  with the text of its JSON serialisation as content, which is not the content the
  message had.
\<close>

theorem anthropic_contents_counterexample:
  "a_messages (anthropicCreateParams noOptions listRequest) =
     [\<lparr> am_role = User, am_content = [CHR ''['', CHR 0x22, CHR ''a'', CHR 0x22, CHR '','',
                                          CHR 0x22, CHR ''b'', CHR 0x22, CHR '']''] \<rparr>] \<and>
   JStr [CHR ''['', CHR 0x22, CHR ''a'', CHR 0x22, CHR '','',
         CHR 0x22, CHR ''b'', CHR 0x22, CHR '']''] \<noteq> content listMessage"
  by code_simp

text \<open>
  Claim C4, amended.  The system field is built from the texts of the messages whose role
  is system or developer, in message order: each text is followed by two line feeds, the
  concatenation is trimmed, and the field is omitted when nothing is left.  The messages
  that are sent are exactly those whose role is user or assistant, in order and with
  their roles.  The text of a message is its content when that is a string, and the JSON
  serialisation of its content otherwise.
\<close>

theorem anthropic_split:
  "a_system (anthropicCreateParams options request) =
     (let sp = trim (concat (map (\<lambda>m. messageText m @ ''\<newline>\<newline>'')
                                 (filter (\<lambda>m. role m = System \<or> role m = Developer)
                                         (messages request))))
      in if sp = [] then None else Some sp) \<and>
   a_messages (anthropicCreateParams options request) =
     map (\<lambda>m. \<lparr> am_role = role m, am_content = messageText m \<rparr>)
         (filter (\<lambda>m. role m = User \<or> role m = Assistant) (messages request)) \<and>
   (\<forall>m s. content m = JStr s \<longrightarrow> messageText m = s) \<and>
   (\<forall>m. (\<forall>s. content m \<noteq> JStr s) \<longrightarrow> messageText m = JSON_stringify (content m))"
proof -
  have "(\<lambda>m. \<not> isSystemRole m) = (\<lambda>m. role m = User \<or> role m = Assistant)"
  proof
    fix m show "(\<not> isSystemRole m) = (role m = User \<or> role m = Assistant)"
      by (cases "role m") (simp_all add: isSystemRole_def)
  qed
  moreover have "isSystemRole = (\<lambda>m. role m = System \<or> role m = Developer)"
    by (rule ext) (simp add: isSystemRole_def)
  moreover have "\<forall>m. (\<forall>s. content m \<noteq> JStr s) \<longrightarrow> messageText m = JSON_stringify (content m)"
    by (auto simp: messageText_def split: json.splits)
  ultimately show ?thesis
    using anthropic_system_eq[of options request] anthropic_messages_eq[of options request]
    by (simp add: messageText_def)
qed

definition chatRequest :: request where
  "chatRequest =
     \<lparr> messages =
         [\<lparr> role = System, content = JStr ''  You are terse.'', name = None \<rparr>,
          \<lparr> role = User, content = JStr ''hi'', name = Some ''ann'' \<rparr>,
          \<lparr> role = Developer, content = JStr ''Answer in French.'', name = None \<rparr>,
          \<lparr> role = Assistant, content = JStr ''salut'', name = None \<rparr>,
          listMessage],
       model = None, responseFormat = None \<rparr>"

theorem anthropic_split_witness:
  "content \<lparr> role = User, content = JStr ''hi'', name = Some ''ann'' \<rparr> = JStr ''hi'' \<and>
   a_system (anthropicCreateParams noOptions chatRequest) =
     Some ''You are terse.\<newline>\<newline>Answer in French.'' \<and>
   a_messages (anthropicCreateParams noOptions chatRequest) =
     [\<lparr> am_role = User, am_content = ''hi'' \<rparr>,
      \<lparr> am_role = Assistant, am_content = ''salut'' \<rparr>,
      \<lparr> am_role = User, am_content = JSON_stringify (JArr [JStr ''a'', JStr ''b'']) \<rparr>]"
proof -
  let ?hi = "\<lparr> role = User, content = JStr ''hi'', name = Some ''ann'' \<rparr>"
  note split = anthropic_split[of noOptions chatRequest]
  have h1: "content ?hi = JStr ''hi''" by simp
  have h2: "\<forall>s. content listMessage \<noteq> JStr s" by (simp add: listMessage_def)
  from split h1 have t1: "messageText ?hi = ''hi''" by blast
  from split h2 have t2: "messageText listMessage = JSON_stringify (content listMessage)" by blast
  have t3: "messageText \<lparr> role = Assistant, content = JStr ''salut'', name = None \<rparr> = ''salut''"
    using split by simp
  have t4: "messageText \<lparr> role = System, content = JStr ''  You are terse.'', name = None \<rparr>
              = ''  You are terse.''"
    using split by simp
  have t5: "messageText \<lparr> role = Developer, content = JStr ''Answer in French.'', name = None \<rparr>
              = ''Answer in French.''"
    using split by simp
  have sys: "a_system (anthropicCreateParams noOptions chatRequest) =
     Some ''You are terse.\<newline>\<newline>Answer in French.''"
    using split by (simp add: chatRequest_def t4 t5 trim_def isWhiteSpace_def listMessage_def)
  have msgs: "a_messages (anthropicCreateParams noOptions chatRequest) =
     [\<lparr> am_role = User, am_content = ''hi'' \<rparr>,
      \<lparr> am_role = Assistant, am_content = ''salut'' \<rparr>,
      \<lparr> am_role = User, am_content = JSON_stringify (JArr [JStr ''a'', JStr ''b'']) \<rparr>]"
    using split t2 by (simp add: chatRequest_def t1 t3 listMessage_def)
  from h1 sys msgs show ?thesis by blast
qed

text \<open>
  Claim C10.  When no message has role system or developer, or when the texts of all
  such messages consist of white space only, the Anthropic adapter sends no system field.
\<close>

theorem anthropic_system_omitted:
  assumes "(\<forall>m \<in> set (messages request). role m \<noteq> System \<and> role m \<noteq> Developer) \<or>
           (\<forall>m \<in> set (messages request). role m = System \<or> role m = Developer \<longrightarrow>
               (\<forall>c \<in> set (messageText m). isWhiteSpace c))"
  shows "a_system (anthropicCreateParams options request) = None"
proof -
  from assms have ws: "\<forall>m \<in> set (messages request). isSystemRole m \<longrightarrow>
               (\<forall>c \<in> set (messageText m). isWhiteSpace c)"
    by (auto simp: isSystemRole_def)
  have "\<forall>c \<in> set (concat (map (\<lambda>m. messageText m @ ''\<newline>\<newline>'')
                                 (filter isSystemRole (messages request)))). isWhiteSpace c"
    using ws by (auto simp: isWhiteSpace_def)
  then have "trim (concat (map (\<lambda>m. messageText m @ ''\<newline>\<newline>'')
                                 (filter isSystemRole (messages request)))) = []"
    by (rule trim_whitespace)
  then show ?thesis by (simp add: anthropic_system_eq)
qed

definition userOnlyRequest :: request where
  "userOnlyRequest =
     \<lparr> messages = [\<lparr> role = User, content = JStr ''hi'', name = None \<rparr>],
       model = None, responseFormat = None \<rparr>"

definition blankSystemRequest :: request where
  "blankSystemRequest =
     \<lparr> messages = [\<lparr> role = System, content = JStr '' \<newline> '', name = None \<rparr>,
                   \<lparr> role = User, content = JStr ''hi'', name = None \<rparr>,
                   \<lparr> role = Developer, content = JStr [CHR 0x09], name = None \<rparr>],
       model = None, responseFormat = None \<rparr>"

theorem anthropic_system_omitted_witness:
  "a_system (anthropicCreateParams noOptions userOnlyRequest) = None \<and>
   a_system (anthropicCreateParams noOptions blankSystemRequest) = None"
proof -
  have h1: "\<forall>m \<in> set (messages userOnlyRequest). role m \<noteq> System \<and> role m \<noteq> Developer"
    by (simp add: userOnlyRequest_def)
  have h2: "\<forall>m \<in> set (messages blankSystemRequest). role m = System \<or> role m = Developer \<longrightarrow>
               (\<forall>c \<in> set (messageText m). isWhiteSpace c)"
    by (simp add: blankSystemRequest_def messageText_def isWhiteSpace_def)
  from h1 have "a_system (anthropicCreateParams noOptions userOnlyRequest) = None"
    by (intro anthropic_system_omitted disjI1)
  moreover from h2 have "a_system (anthropicCreateParams noOptions blankSystemRequest) = None"
    by (intro anthropic_system_omitted disjI2)
  ultimately show ?thesis by blast
qed


subsection \<open>What the OpenAI adapter sends\<close>

text \<open>
  Claim C3, as stated, fails.  A message whose content is the list \<open>["a","b"]\<close> is
  submitted with the text of its JSON serialisation as content.
\<close>

theorem openai_contents_counterexample:
  "o_messages (openaiCreateParams noOptions listRequest) =
     [\<lparr> o_role = User, o_content = [CHR ''['', CHR 0x22, CHR ''a'', CHR 0x22, CHR '','',
                                        CHR 0x22, CHR ''b'', CHR 0x22, CHR '']''],
        o_name = None \<rparr>] \<and>
   JStr [CHR ''['', CHR 0x22, CHR ''a'', CHR 0x22, CHR '','',
         CHR 0x22, CHR ''b'', CHR 0x22, CHR '']''] \<noteq> content listMessage"
  by code_simp

text \<open>
  Claim C3, amended.  The OpenAI adapter submits one message for every message of the
  request, in the same order.  Each keeps its name; its content is kept when it is a
  string and is replaced by its JSON serialisation otherwise; its role is kept when it is
  system, user or assistant.  The response format is submitted as it is.
\<close>

theorem openai_passthrough:
  "length (o_messages (openaiCreateParams options request)) = length (messages request) \<and>
   (\<forall>i < length (messages request).
      o_name (o_messages (openaiCreateParams options request) ! i) = name (messages request ! i) \<and>
      (\<forall>s. content (messages request ! i) = JStr s \<longrightarrow>
         o_content (o_messages (openaiCreateParams options request) ! i) = s) \<and>
      ((\<forall>s. content (messages request ! i) \<noteq> JStr s) \<longrightarrow>
         o_content (o_messages (openaiCreateParams options request) ! i) =
           JSON_stringify (content (messages request ! i))) \<and>
      (role (messages request ! i) \<noteq> Developer \<longrightarrow>
         o_role (o_messages (openaiCreateParams options request) ! i) = role (messages request ! i))) \<and>
   o_response_format (openaiCreateParams options request) = responseFormat request"
  by (auto simp: openaiCreateParams_def openaiMessage_def messageText_def split: json.splits)

theorem openai_passthrough_witness:
  "(1::nat) < length (messages chatRequest) \<and>
   content (messages chatRequest ! 1) = JStr ''hi'' \<and>
   role (messages chatRequest ! 1) \<noteq> Developer \<and>
   o_messages (openaiCreateParams noOptions chatRequest) ! 1 =
     \<lparr> o_role = User, o_content = ''hi'', o_name = Some ''ann'' \<rparr> \<and>
   (4::nat) < length (messages chatRequest) \<and>
   content (messages chatRequest ! 4) = JArr [JStr ''a'', JStr ''b''] \<and>
   o_content (o_messages (openaiCreateParams noOptions chatRequest) ! 4) =
     JSON_stringify (JArr [JStr ''a'', JStr ''b''])"
proof -
  note pass = openai_passthrough[of noOptions chatRequest]
  have l1: "(1::nat) < length (messages chatRequest)" and l4: "(4::nat) < length (messages chatRequest)"
    by (simp_all add: chatRequest_def)
  have c1: "content (messages chatRequest ! 1) = JStr ''hi''"
    and r1: "role (messages chatRequest ! 1) \<noteq> Developer"
    and n1: "name (messages chatRequest ! 1) = Some ''ann''"
    and r1': "role (messages chatRequest ! 1) = User"
    by (simp_all add: chatRequest_def)
  have c4: "\<forall>s. content (messages chatRequest ! 4) \<noteq> JStr s"
    and c4': "content (messages chatRequest ! 4) = JArr [JStr ''a'', JStr ''b'']"
    by (simp_all add: chatRequest_def listMessage_def)
  from pass l1 c1 r1 n1 r1' have
    "o_name (o_messages (openaiCreateParams noOptions chatRequest) ! 1) = Some ''ann''"
    "o_content (o_messages (openaiCreateParams noOptions chatRequest) ! 1) = ''hi''"
    "o_role (o_messages (openaiCreateParams noOptions chatRequest) ! 1) = User"
    by auto
  then have m1: "o_messages (openaiCreateParams noOptions chatRequest) ! 1 =
     \<lparr> o_role = User, o_content = ''hi'', o_name = Some ''ann'' \<rparr>"
    by (cases "o_messages (openaiCreateParams noOptions chatRequest) ! 1") simp
  from pass l4 c4 c4' have
    m4: "o_content (o_messages (openaiCreateParams noOptions chatRequest) ! 4) =
     JSON_stringify (JArr [JStr ''a'', JStr ''b''])"
    by auto
  from l1 c1 r1 m1 l4 c4' m4 show ?thesis by blast
qed

subsection \<open>Structured output through a forced tool\<close>

definition emptyDescriptionSchema :: json_schema where
  "emptyDescriptionSchema =
     \<lparr> schema_name = ''answer'', description = Some [],
       schema = JObj [(''type'', JStr ''object'')] \<rparr>"

definition emptyDescriptionRequest :: request where
  "emptyDescriptionRequest =
     \<lparr> messages = [\<lparr> role = User, content = JStr ''hi'', name = None \<rparr>],
       model = None, responseFormat = Some (JsonSchemaFormat emptyDescriptionSchema) \<rparr>"

text \<open>
  Claim C2, as stated, fails.  A description that is present but empty is not sent: the
  tool gets the default description.
\<close>

theorem anthropic_tool_description_counterexample:
  "description emptyDescriptionSchema = Some [] \<and>
   a_tools (anthropicCreateParams noOptions emptyDescriptionRequest) =
     Some [\<lparr> tool_name = ''answer'',
             tool_description = ''Output data in this structured format'',
             input_schema = JObj [(''type'', JStr ''object'')] \<rparr>] \<and>
   ''Output data in this structured format'' \<noteq> []"
  by (simp add: emptyDescriptionSchema_def emptyDescriptionRequest_def anthropicCreateParams_def
      orDefault_def Let_def split: prod.splits)

lemma find_first:
  "\<forall>b \<in> set pre. \<not> P b \<Longrightarrow> P x \<Longrightarrow> find P (pre @ x # post) = Some x"
  by (induction pre) auto

lemma find_none: "\<forall>b \<in> set xs. \<not> P b \<Longrightarrow> find P xs = None"
  by (induction xs) auto

text \<open>
  Claim C2, amended.  For a request whose response format is a JSON Schema the Anthropic
  adapter sends exactly one tool, named as the schema is named, with the schema as its
  input schema and with the description of the schema when that is a non-empty string
  (the default description otherwise), and it forces that tool by name.  The argument has
  no response-format field at all.  The content of the result is the JSON serialisation,
  indented by two spaces, of the input of the first tool-use block of the response, and
  the empty string when the response has no tool-use block.
\<close>

theorem anthropic_forced_tool:
  assumes "responseFormat request = Some (JsonSchemaFormat js)"
  shows "a_tools (anthropicCreateParams options request) =
           Some [\<lparr> tool_name = schema_name js,
                   tool_description =
                     (case description js of
                        None \<Rightarrow> ''Output data in this structured format''
                      | Some d \<Rightarrow> if d = [] then ''Output data in this structured format'' else d),
                   input_schema = schema js \<rparr>] \<and>
         a_tool_choice (anthropicCreateParams options request) =
           Some \<lparr> choice_type = ''tool'', choice_name = schema_name js \<rparr> \<and>
         (\<forall>pre n i post.
            r_content response = pre @ ToolUseBlock n i # post \<and> (\<forall>b \<in> set pre. \<not> isToolUse b) \<longrightarrow>
            anthropicResult request response =
              Inr \<lparr> p_content = JSON_stringify_indent2 i, p_model = r_model response,
                    p_usage = Some (r_input_tokens response, r_output_tokens response) \<rparr>) \<and>
         ((\<forall>b \<in> set (r_content response). \<not> isToolUse b) \<longrightarrow>
            anthropicResult request response =
              Inr \<lparr> p_content = [], p_model = r_model response,
                    p_usage = Some (r_input_tokens response, r_output_tokens response) \<rparr>)"
proof (intro conjI allI impI)
  show "a_tools (anthropicCreateParams options request) =
           Some [\<lparr> tool_name = schema_name js,
                   tool_description =
                     (case description js of
                        None \<Rightarrow> ''Output data in this structured format''
                      | Some d \<Rightarrow> if d = [] then ''Output data in this structured format'' else d),
                   input_schema = schema js \<rparr>]"
    using assms by (simp add: anthropicCreateParams_def orDefault_def Let_def split: prod.splits)
next
  show "a_tool_choice (anthropicCreateParams options request) =
           Some \<lparr> choice_type = ''tool'', choice_name = schema_name js \<rparr>"
    using assms by (simp add: anthropicCreateParams_def Let_def split: prod.splits)
next
  fix pre n i post
  assume "r_content response = pre @ ToolUseBlock n i # post \<and> (\<forall>b \<in> set pre. \<not> isToolUse b)"
  then have "find isToolUse (r_content response) = Some (ToolUseBlock n i)"
    by (simp add: find_first)
  then show "anthropicResult request response =
              Inr \<lparr> p_content = JSON_stringify_indent2 i, p_model = r_model response,
                    p_usage = Some (r_input_tokens response, r_output_tokens response) \<rparr>"
    using assms by (simp add: anthropicResult_def anthropicText_def isJsonSchema_def)
next
  assume "\<forall>b \<in> set (r_content response). \<not> isToolUse b"
  then have "find isToolUse (r_content response) = None" by (rule find_none)
  then show "anthropicResult request response =
              Inr \<lparr> p_content = [], p_model = r_model response,
                    p_usage = Some (r_input_tokens response, r_output_tokens response) \<rparr>"
    using assms by (simp add: anthropicResult_def anthropicText_def isJsonSchema_def)
qed

definition personSchema :: json_schema where
  "personSchema =
     \<lparr> schema_name = ''person'', description = Some ''A person'',
       schema = JObj [(''type'', JStr ''object''),
                      (''properties'', JObj [(''name'', JObj [(''type'', JStr ''string'')])])] \<rparr>"

definition personRequest :: request where
  "personRequest =
     \<lparr> messages = [\<lparr> role = User, content = JStr ''Who wrote Emma?'', name = None \<rparr>],
       model = None, responseFormat = Some (JsonSchemaFormat personSchema) \<rparr>"

definition personResponse :: anthropic_response where
  "personResponse =
     \<lparr> r_content = [TextBlock ''Let me answer.'',
                    ToolUseBlock ''person'' (JObj [(''name'', JStr ''Jane Austen'')])],
       r_model = ''claude-3-opus-20240229'', r_input_tokens = 12, r_output_tokens = 7 \<rparr>"

theorem anthropic_forced_tool_witness:
  "responseFormat personRequest = Some (JsonSchemaFormat personSchema) \<and>
   r_content personResponse =
     [TextBlock ''Let me answer.''] @
       ToolUseBlock ''person'' (JObj [(''name'', JStr ''Jane Austen'')]) # [] \<and>
   a_tools (anthropicCreateParams noOptions personRequest) =
     Some [\<lparr> tool_name = ''person'', tool_description = ''A person'',
             input_schema = schema personSchema \<rparr>] \<and>
   a_tool_choice (anthropicCreateParams noOptions personRequest) =
     Some \<lparr> choice_type = ''tool'', choice_name = ''person'' \<rparr> \<and>
   anthropicResult personRequest personResponse =
     Inr \<lparr> p_content = JSON_stringify_indent2 (JObj [(''name'', JStr ''Jane Austen'')]),
           p_model = ''claude-3-opus-20240229'', p_usage = Some (12, 7) \<rparr>"
proof -
  have r: "responseFormat personRequest = Some (JsonSchemaFormat personSchema)"
    by (simp add: personRequest_def)
  have c: "r_content personResponse =
     [TextBlock ''Let me answer.''] @
       ToolUseBlock ''person'' (JObj [(''name'', JStr ''Jane Austen'')]) # []"
    by (simp add: personResponse_def)
  have p: "\<forall>b \<in> set [TextBlock ''Let me answer.'']. \<not> isToolUse b" by simp
  note tool = anthropic_forced_tool[OF r, of noOptions personResponse]
  from tool have "a_tools (anthropicCreateParams noOptions personRequest) =
     Some [\<lparr> tool_name = ''person'', tool_description = ''A person'',
             input_schema = schema personSchema \<rparr>]"
    by (simp add: personSchema_def)
  moreover from tool have "a_tool_choice (anthropicCreateParams noOptions personRequest) =
     Some \<lparr> choice_type = ''tool'', choice_name = ''person'' \<rparr>"
    by (simp add: personSchema_def)
  moreover from tool c p have "anthropicResult personRequest personResponse =
     Inr \<lparr> p_content = JSON_stringify_indent2 (JObj [(''name'', JStr ''Jane Austen'')]),
           p_model = r_model personResponse,
           p_usage = Some (r_input_tokens personResponse, r_output_tokens personResponse) \<rparr>"
    by blast
  ultimately show ?thesis using r c by (simp add: personResponse_def)
qed

section \<open>The loader: \<open>src/loader.ts\<close>\<close>

subsection \<open>The first header of a Markdown text\<close>

text \<open>
  \<open>extractFirstHeader\<close> and \<open>removeFirstHeader\<close> (lines 83 to 110) use the same regular
  expression, \<open>/^(#{1,6})\s+(.+?)(?:\n|$)/m\<close>, and its first match.  On ASCII text
  \<open>\s\<close> is the white space of \<open>trim\<close>, a line terminator is a line feed or a
  carriage return, and the dot is any other character.

  \<open>matchHeaderAt s\<close> is the attempt to match at the beginning of \<open>s\<close>, a position
  where \<open>^\<close> holds; its result is the matched text, the second group and the text
  after the match.  One to six hashes must be followed by white space.  The greedy
  \<open>\s+\<close> takes all of it, line terminators included; when a character follows, the
  lazy group runs from there to the end of that line.  When the white space reaches the
  end of the text, the engine backtracks: \<open>\s+\<close> gives back characters until the one
  it gives back last can start the group, so the group is the last character of the white
  space after its first that is not a line terminator, and the match fails when there is
  none.  After the group the match takes a line feed when one follows.
\<close>

definition CR :: char where "CR = CHR 0x0D"

definition isLineTerminator :: "char \<Rightarrow> bool" where
  "isLineTerminator c = (c = LF \<or> c = CR)"

definition isHash :: "char \<Rightarrow> bool" where
  "isHash c = (c = CHR ''#'')"

definition endOfLine :: "string \<Rightarrow> string \<Rightarrow> string \<Rightarrow> string \<times> string \<times> string" where
  "endOfLine matched captured rest =
     (case rest of
        [] \<Rightarrow> (matched, captured, [])
      | c # rest' \<Rightarrow> if c = LF then (matched @ [LF], captured, rest') else (matched, captured, rest))"

definition matchHeaderAt :: "string \<Rightarrow> (string \<times> string \<times> string) option" where
  "matchHeaderAt s =
     (let hashes = takeWhile isHash s;
          afterHashes = dropWhile isHash s;
          spaces = takeWhile isWhiteSpace afterHashes;
          afterSpaces = dropWhile isWhiteSpace afterHashes
      in if length hashes < 1 \<or> 6 < length hashes \<or> spaces = [] then None
         else if afterSpaces \<noteq> [] then
           Some (endOfLine (hashes @ spaces @ takeWhile (\<lambda>c. \<not> isLineTerminator c) afterSpaces)
                           (takeWhile (\<lambda>c. \<not> isLineTerminator c) afterSpaces)
                           (dropWhile (\<lambda>c. \<not> isLineTerminator c) afterSpaces))
         else
           (let upto = rev (dropWhile isLineTerminator (rev (tl spaces)));
                terminators = rev (takeWhile isLineTerminator (rev (tl spaces)))
            in if upto = [] then None
               else Some (endOfLine (hashes @ [hd spaces] @ upto) [last upto] terminators)))"

text \<open>
  The engine tries the positions of the text from left to right; \<open>^\<close> holds at the
  beginning of the text and after a line terminator.  The result adds the text before
  the match.
\<close>

fun scanHeader :: "bool \<Rightarrow> string \<Rightarrow> (string \<times> string \<times> string \<times> string) option" where
  "scanHeader atLineStart [] = None"
| "scanHeader atLineStart (c # cs) =
     (case (if atLineStart then matchHeaderAt (c # cs) else None) of
        Some (matched, captured, rest) \<Rightarrow> Some ([], matched, captured, rest)
      | None \<Rightarrow>
          (case scanHeader (isLineTerminator c) cs of
             Some (before, matched, captured, rest) \<Rightarrow> Some (c # before, matched, captured, rest)
           | None \<Rightarrow> None))"

definition headerRegexMatch :: "string \<Rightarrow> (string \<times> string \<times> string \<times> string) option" where
  "headerRegexMatch markdownText = scanHeader True markdownText"

definition extractFirstHeader :: "string \<Rightarrow> string option" where
  "extractFirstHeader markdownText =
     (case headerRegexMatch markdownText of
        Some (before, matched, captured, rest) \<Rightarrow> if captured \<noteq> [] then Some (trim captured) else None
      | None \<Rightarrow> None)"

definition removeFirstHeader :: "string \<Rightarrow> string" where
  "removeFirstHeader markdownText =
     (case headerRegexMatch markdownText of
        Some (before, matched, captured, rest) \<Rightarrow> trim (before @ rest)
      | None \<Rightarrow> markdownText)"


subsection \<open>Sections\<close>

text \<open>
  Modelled from the spec: \<open>createSection\<close> and \<open>Section.add\<close> are not among the
  sources at hand (\<open>src/items/section.ts\<close>).  A Section has a title and an ordered list of
  items; \<open>add\<close> appends, wrapping a raw string into a leaf item and taking a Section as
  a nested Section.  Weights and parameters, and the placeholder substitution that
  \<open>add\<close> applies to a string with the parameters of the section, are left out: the text
  of a leaf item is the string that the loader passes to \<open>add\<close>.
\<close>

datatype prompt_section = Section string "entry list"
  and entry = TextEntry string | SubSection prompt_section

definition createSection :: "string \<Rightarrow> prompt_section" where
  "createSection title = Section title []"

fun addText :: "prompt_section \<Rightarrow> string \<Rightarrow> prompt_section" where
  "addText (Section title items) txt = Section title (items @ [TextEntry txt])"

fun addSection :: "prompt_section \<Rightarrow> prompt_section \<Rightarrow> prompt_section" where
  "addSection (Section title items) sub = Section title (items @ [SubSection sub])"

subsection \<open>What the loader is given\<close>

text \<open>
  The loader reads the file system through \<open>Storage\<close> (exists, readFile, listFiles,
  isFile), joins paths with \<open>path.join\<close> and \<open>path.basename\<close>, compiles ignore
  patterns with \<open>SafeRegex\<close> of the package pressurelid (\<open>create(pattern, flags)\<close> and
  \<open>globToRegex(pattern)\<close>, each returning \<open>{ safe, regex?, error? }\<close>), and sanitises
  errors with \<open>createSafeError\<close>, which \<open>src/error-handling.ts\<close> hands on to the package
  spotclean.  None of these is code of the loader: they are the fields of a record
  \<open>host\<close>, and every general statement about the loader holds for every host.  A
  storage operation returns its value or throws; a compiled regular expression is what
  \<open>regex.test\<close> answers; of a safe error only the message is used.

  The log holds the warnings and errors that the loader itself writes.  Debug entries and
  what \<open>SafeRegex\<close> writes through the callbacks \<open>onBlock\<close> and \<open>onWarning\<close> are not
  part of it.
\<close>

datatype exn = Exn string

type_synonym matcher = "string \<Rightarrow> bool"

record safe_regex_result =
  safe :: bool
  regex :: "matcher option"
  error :: "string option"

record host =
  storage_exists :: "string \<Rightarrow> exn + bool"
  storage_readFile :: "string \<Rightarrow> exn + string"
  storage_listFiles :: "string \<Rightarrow> exn + string list"
  storage_isFile :: "string \<Rightarrow> exn + bool"
  path_join :: "string \<Rightarrow> string \<Rightarrow> string"
  path_basename :: "string \<Rightarrow> string"
  safeRegex_create :: "string \<Rightarrow> string \<Rightarrow> safe_regex_result"
  safeRegex_globToRegex :: "string \<Rightarrow> safe_regex_result"
  safeError_message :: "exn \<Rightarrow> string \<Rightarrow> string"

datatype log_entry = Warn string | Error string

subsection \<open>\<open>createSafeIgnorePatterns\<close> (lines 31 to 72)\<close>

definition usable :: "safe_regex_result \<Rightarrow> bool" where
  "usable result = (safe result \<and> regex result \<noteq> None)"

definition compilePattern :: "host \<Rightarrow> string \<Rightarrow> matcher option \<times> log_entry list" where
  "compilePattern h pattern =
     (let result = safeRegex_create h pattern ''i'' in
      if usable result then (regex result, [])
      else
        let globResult = safeRegex_globToRegex h pattern in
        if usable globResult then (regex globResult, [])
        else (None,
              [Warn (''Invalid or unsafe ignore pattern '' @ [CHR 0x22] @ pattern @ [CHR 0x22]
                     @ '': ''
                     @ (case orString (error result) (error globResult) of
                          None \<Rightarrow> ''undefined''
                        | Some e \<Rightarrow> e))]))"

definition createSafeIgnorePatterns :: "host \<Rightarrow> string list \<Rightarrow> matcher list \<times> log_entry list" where
  "createSafeIgnorePatterns h patterns =
     (List.map_filter fst (map (compilePattern h) patterns),
      concat (map snd (map (compilePattern h) patterns)))"

subsection \<open>\<open>load\<close> (lines 136 to 233)\<close>

text \<open>
  The body of the \<open>try\<close> block for one directory is \<open>processDirectory\<close>: the section of
  the directory from \<open>context.md\<close> (lines 155 to 181), the listing and the filter (lines
  184 to 191), and the loop over the files that are left (lines 193 to 222).  It returns
  the warnings written on the way and either the section or the exception that was
  thrown.  \<open>loadLoop\<close> is the loop over the directories with its \<open>catch\<close> (lines 153 to
  230).
\<close>

definition endsWith :: "string \<Rightarrow> string \<Rightarrow> bool" where
  "endsWith suffix s = (length suffix \<le> length s \<and> drop (length s - length suffix) s = suffix)"

definition truthyHeader :: "string option \<Rightarrow> bool" where
  "truthyHeader header = (case header of None \<Rightarrow> False | Some t \<Rightarrow> t \<noteq> [])"

definition mainContextSection :: "host \<Rightarrow> string \<Rightarrow> exn + prompt_section" where
  "mainContextSection h contextDir =
     (let dirName = path_basename h contextDir;
          contextFile = path_join h contextDir ''context.md''
      in case storage_exists h contextFile of
           Inl e \<Rightarrow> Inl e
         | Inr True \<Rightarrow>
             (case storage_readFile h contextFile of
                Inl e \<Rightarrow> Inl e
              | Inr mainContextContent \<Rightarrow>
                  (let firstHeader = extractFirstHeader mainContextContent in
                   if truthyHeader firstHeader
                   then Inr (addText (createSection (the firstHeader))
                                     (removeFirstHeader mainContextContent))
                   else Inr (addText (createSection dirName) mainContextContent)))
         | Inr False \<Rightarrow> Inr (createSection dirName))"

definition fileSection :: "string \<Rightarrow> string \<Rightarrow> prompt_section" where
  "fileSection file fileContent =
     (let fileHeader = (if endsWith ''.md'' file then extractFirstHeader fileContent else None)
      in if truthyHeader fileHeader
         then addText (createSection (the fileHeader)) (removeFirstHeader fileContent)
         else addText (createSection file) fileContent)"

fun addFiles :: "host \<Rightarrow> string \<Rightarrow> string list \<Rightarrow> prompt_section \<Rightarrow> exn + prompt_section" where
  "addFiles h contextDir [] main = Inr main"
| "addFiles h contextDir (file # rest) main =
     (if file = ''context.md'' then addFiles h contextDir rest main
      else
        case storage_isFile h (path_join h contextDir file) of
          Inl e \<Rightarrow> Inl e
        | Inr False \<Rightarrow> addFiles h contextDir rest main
        | Inr True \<Rightarrow>
            (case storage_readFile h (path_join h contextDir file) of
               Inl e \<Rightarrow> Inl e
             | Inr fileContent \<Rightarrow>
                 addFiles h contextDir rest (addSection main (fileSection file fileContent))))"

definition filteredFiles :: "host \<Rightarrow> matcher list \<Rightarrow> string \<Rightarrow> string list \<Rightarrow> string list" where
  "filteredFiles h ignorePatternsRegex contextDir files =
     filter (\<lambda>file. \<not> list_ex (\<lambda>regex. regex file \<or> regex (path_join h contextDir file))
                                ignorePatternsRegex) files"

definition processDirectory ::
  "host \<Rightarrow> string list \<Rightarrow> string \<Rightarrow> log_entry list \<times> (exn + prompt_section)" where
  "processDirectory h ignorePatterns contextDir =
     (case mainContextSection h contextDir of
        Inl e \<Rightarrow> ([], Inl e)
      | Inr main \<Rightarrow>
          (case storage_listFiles h contextDir of
             Inl e \<Rightarrow> ([], Inl e)
           | Inr files \<Rightarrow>
               (let (ignorePatternsRegex, warnings) = createSafeIgnorePatterns h ignorePatterns
                in (warnings,
                    addFiles h contextDir
                      (filteredFiles h ignorePatternsRegex contextDir files) main))))"




subsection \<open>The first match, characterised\<close>

lemma lineTerminator_whiteSpace: "isLineTerminator c \<Longrightarrow> isWhiteSpace c"
  by (auto simp: isLineTerminator_def isWhiteSpace_def LF_def CR_def)

lemma endOfLine_split:
  "endOfLine m g r = (m', g', r') \<Longrightarrow> m' @ r' = m @ r \<and> g' = g"
  by (auto simp: endOfLine_def split: list.splits if_splits)

lemma takeWhile_first_nonempty: "xs \<noteq> [] \<Longrightarrow> P (hd xs) \<Longrightarrow> takeWhile P xs \<noteq> []"
  by (cases xs) auto

lemma dropWhile_hd: "dropWhile P xs \<noteq> [] \<Longrightarrow> \<not> P (hd (dropWhile P xs))"
  using hd_dropWhile by blast

lemma rev_split_while:
  "rev (dropWhile P (rev xs)) @ rev (takeWhile P (rev xs)) = xs"
proof -
  have "rev (takeWhile P (rev xs) @ dropWhile P (rev xs)) = xs" by simp
  then show ?thesis by (simp only: rev_append)
qed

lemma last_rev_dropWhile:
  "rev (dropWhile P (rev xs)) \<noteq> [] \<Longrightarrow> \<not> P (last (rev (dropWhile P (rev xs))))"
proof -
  assume "rev (dropWhile P (rev xs)) \<noteq> []"
  then have n: "dropWhile P (rev xs) \<noteq> []" by simp
  then have "\<not> P (hd (dropWhile P (rev xs)))" by (rule dropWhile_hd)
  with n show ?thesis by (simp add: last_rev)
qed

lemma matchHeaderAt_split:
  assumes "matchHeaderAt s = Some (m, g, r)"
  shows "s = m @ r \<and> g \<noteq> [] \<and> (\<forall>c \<in> set g. \<not> isLineTerminator c) \<and> s \<noteq> [] \<and> hd s = CHR ''#''"
proof -
  let ?hashes = "takeWhile isHash s" and ?afterHashes = "dropWhile isHash s"
  let ?spaces = "takeWhile isWhiteSpace ?afterHashes"
  let ?afterSpaces = "dropWhile isWhiteSpace ?afterHashes"
  let ?dot = "\<lambda>c. \<not> isLineTerminator c"
  from assms have h: "?hashes \<noteq> []" and sp: "?spaces \<noteq> []"
    by (auto simp: matchHeaderAt_def Let_def split: if_splits)
  from h have s1: "s \<noteq> []" by auto
  from h have "isHash (hd s)" by (cases s) (auto split: if_splits)
  then have s2: "hd s = CHR ''#''" by (simp add: isHash_def)
  have whole: "s = ?hashes @ ?spaces @ ?afterSpaces" by simp
  show ?thesis
  proof (cases "?afterSpaces = []")
    case False
    with assms h sp have e: "endOfLine (?hashes @ ?spaces @ takeWhile ?dot ?afterSpaces)
        (takeWhile ?dot ?afterSpaces) (dropWhile ?dot ?afterSpaces) = (m, g, r)"
      by (auto simp: matchHeaderAt_def Let_def split: if_splits)
    from endOfLine_split[OF e] have mr: "m @ r = (?hashes @ ?spaces @ takeWhile ?dot ?afterSpaces)
        @ dropWhile ?dot ?afterSpaces" and g: "g = takeWhile ?dot ?afterSpaces" by simp_all
    from mr have "m @ r = ?hashes @ ?spaces @ ?afterSpaces" by simp
    with whole have "s = m @ r" by simp
    moreover have "g \<noteq> []"
    proof -
      from False have "\<not> isWhiteSpace (hd ?afterSpaces)" by (rule dropWhile_hd)
      then have "?dot (hd ?afterSpaces)" using lineTerminator_whiteSpace by blast
      with False show ?thesis unfolding g by (rule takeWhile_first_nonempty)
    qed
    moreover have "\<forall>c \<in> set g. \<not> isLineTerminator c"
      unfolding g by (auto dest: set_takeWhileD)
    ultimately show ?thesis using s1 s2 by simp
  next
    case True
    let ?upto = "rev (dropWhile isLineTerminator (rev (tl ?spaces)))"
    let ?terminators = "rev (takeWhile isLineTerminator (rev (tl ?spaces)))"
    from assms h sp True have u: "?upto \<noteq> []"
      and e: "endOfLine (?hashes @ [hd ?spaces] @ ?upto) [last ?upto] ?terminators = (m, g, r)"
      by (auto simp: matchHeaderAt_def Let_def split: if_splits)
    from endOfLine_split[OF e] have mr: "m @ r = (?hashes @ [hd ?spaces] @ ?upto) @ ?terminators"
      and g: "g = [last ?upto]" by simp_all
    have "?upto @ ?terminators = tl ?spaces" by (rule rev_split_while)
    with mr have "m @ r = ?hashes @ hd ?spaces # tl ?spaces" by simp
    with sp have "m @ r = ?hashes @ ?spaces" by simp
    with whole True have "s = m @ r" by simp
    moreover from u have "\<not> isLineTerminator (last ?upto)" by (rule last_rev_dropWhile)
    ultimately show ?thesis using s1 s2 g by simp
  qed
qed

lemma scanHeader_split:
  "scanHeader atStart s = Some (b, m, g, r) \<Longrightarrow>
     s = b @ m @ r \<and> matchHeaderAt (m @ r) = Some (m, g, r) \<and>
     (b = [] \<and> atStart \<or> b \<noteq> [] \<and> isLineTerminator (last b))"
proof (induction s arbitrary: atStart b)
  case Nil
  then show ?case by simp
next
  case (Cons c cs)
  show ?case
  proof (cases "if atStart then matchHeaderAt (c # cs) else None")
    case (Some t)
    obtain m' g' r' where t: "t = (m', g', r')" by (cases t)
    with Some Cons.prems have eq: "b = []" "m' = m" "g' = g" "r' = r" by simp_all
    from Some t eq have st: "atStart" and mh: "matchHeaderAt (c # cs) = Some (m, g, r)"
      by (auto split: if_splits)
    from matchHeaderAt_split[OF mh] have "c # cs = m @ r" by blast
    with mh st eq show ?thesis by simp
  next
    case None
    with Cons.prems obtain b' where rec: "scanHeader (isLineTerminator c) cs = Some (b', m, g, r)"
      and b: "b = c # b'"
      by (auto split: option.splits)
    from Cons.IH[OF rec] have ih: "cs = b' @ m @ r" "matchHeaderAt (m @ r) = Some (m, g, r)"
      "b' = [] \<and> isLineTerminator c \<or> b' \<noteq> [] \<and> isLineTerminator (last b')" by simp_all
    then show ?thesis using b by auto
  qed
qed

lemma headerRegexMatch_split:
  assumes "headerRegexMatch fileContent = Some (b, m, g, r)"
  shows "fileContent = b @ m @ r \<and> matchHeaderAt (m @ r) = Some (m, g, r) \<and>
     (b = [] \<or> isLineTerminator (last b)) \<and> g \<noteq> []"
proof -
  from assms have s: "scanHeader True fileContent = Some (b, m, g, r)"
    by (simp add: headerRegexMatch_def)
  from scanHeader_split[OF s] have a: "fileContent = b @ m @ r"
    "matchHeaderAt (m @ r) = Some (m, g, r)" "b = [] \<or> isLineTerminator (last b)" by auto
  from matchHeaderAt_split[OF a(2)] have "g \<noteq> []" by simp
  with a show ?thesis by simp
qed

lemma fileSection_plain:
  "\<not> endsWith ''.md'' file \<or> headerRegexMatch fileContent = None \<Longrightarrow>
   fileSection file fileContent = Section file [TextEntry fileContent]"
  by (auto simp: fileSection_def extractFirstHeader_def truthyHeader_def createSection_def)

lemma fileSection_header:
  assumes "endsWith ''.md'' file" and "headerRegexMatch fileContent = Some (b, m, g, r)"
  shows "fileSection file fileContent =
     (if trim g = [] then Section file [TextEntry fileContent]
      else Section (trim g) [TextEntry (trim (b @ r))])"
proof -
  from headerRegexMatch_split[OF assms(2)] have "g \<noteq> []" by simp
  with assms show ?thesis
    by (simp add: fileSection_def extractFirstHeader_def removeFirstHeader_def truthyHeader_def
        createSection_def)
qed

lemma scanHeader_none:
  "scanHeader atStart s = None \<Longrightarrow> s = b1 @ b2 \<Longrightarrow>
   (b1 = [] \<and> atStart \<or> b1 \<noteq> [] \<and> isLineTerminator (last b1)) \<Longrightarrow> matchHeaderAt b2 = None"
proof (induction s arbitrary: atStart b1)
  case Nil
  then show ?case by (simp add: matchHeaderAt_def)
next
  case (Cons c cs)
  from Cons.prems(1) have here: "(if atStart then matchHeaderAt (c # cs) else None) = None"
    and rec: "scanHeader (isLineTerminator c) cs = None"
    by (auto split: option.splits)
  show ?case
  proof (cases b1)
    case Nil
    with Cons.prems here show ?thesis by (auto split: if_splits)
  next
    case (Cons d ds)
    with Cons.prems(2) have d: "d = c" and cs: "cs = ds @ b2" by simp_all
    from Cons.prems(3) Cons d have "ds = [] \<and> isLineTerminator c \<or> ds \<noteq> [] \<and> isLineTerminator (last ds)"
      by (auto split: if_splits)
    from Cons.IH[OF rec cs this] show ?thesis .
  qed
qed

lemma scanHeader_first:
  "scanHeader atStart s = Some (b, m, g, r) \<Longrightarrow> b = b1 @ b2 \<Longrightarrow> b2 \<noteq> [] \<Longrightarrow>
   (b1 = [] \<and> atStart \<or> b1 \<noteq> [] \<and> isLineTerminator (last b1)) \<Longrightarrow>
   matchHeaderAt (b2 @ m @ r) = None"
proof (induction s arbitrary: atStart b b1)
  case Nil
  then show ?case by simp
next
  case (Cons c cs)
  from Cons.prems(2,3) have bne: "b \<noteq> []" by simp
  have here: "(if atStart then matchHeaderAt (c # cs) else None) = None"
  proof (cases "if atStart then matchHeaderAt (c # cs) else None")
    case (Some t)
    with Cons.prems(1) have "b = []" by (cases t) auto
    with bne show ?thesis by simp
  qed simp
  with Cons.prems(1) obtain b' where rec: "scanHeader (isLineTerminator c) cs = Some (b', m, g, r)"
    and b: "b = c # b'"
    by (auto split: option.splits)
  from scanHeader_split[OF rec] have cs: "cs = b' @ m @ r" by simp
  show ?case
  proof (cases b1)
    case Nil
    with Cons.prems(2) b have "b2 = c # b'" by simp
    with cs have "b2 @ m @ r = c # cs" by simp
    moreover from Nil Cons.prems(4) have atStart by simp
    ultimately show ?thesis using here by simp
  next
    case (Cons d ds)
    with Cons.prems(2) b have d: "d = c" and b': "b' = ds @ b2" by simp_all
    from Cons.prems(4) Cons d have "ds = [] \<and> isLineTerminator c \<or> ds \<noteq> [] \<and> isLineTerminator (last ds)"
      by (auto split: if_splits)
    from Cons.IH[OF rec b' Cons.prems(3) this] show ?thesis .
  qed
qed


lemma headerRegexMatch_None_iff:
  "headerRegexMatch fileContent = None \<longleftrightarrow>
     (\<forall>b1 b2. fileContent = b1 @ b2 \<and> (b1 = [] \<or> isLineTerminator (last b1)) \<longrightarrow>
        matchHeaderAt b2 = None)"
proof
  assume n: "headerRegexMatch fileContent = None"
  show "\<forall>b1 b2. fileContent = b1 @ b2 \<and> (b1 = [] \<or> isLineTerminator (last b1)) \<longrightarrow>
        matchHeaderAt b2 = None"
  proof (intro allI impI)
    fix b1 b2
    assume a: "fileContent = b1 @ b2 \<and> (b1 = [] \<or> isLineTerminator (last b1))"
    then have "b1 = [] \<and> True \<or> b1 \<noteq> [] \<and> isLineTerminator (last b1)" by auto
    with n a show "matchHeaderAt b2 = None"
      unfolding headerRegexMatch_def by (blast intro: scanHeader_none)
  qed
next
  assume a: "\<forall>b1 b2. fileContent = b1 @ b2 \<and> (b1 = [] \<or> isLineTerminator (last b1)) \<longrightarrow>
        matchHeaderAt b2 = None"
  show "headerRegexMatch fileContent = None"
  proof (cases "headerRegexMatch fileContent")
    case (Some t)
    obtain b m g r where t: "t = (b, m, g, r)" by (cases t)
    from headerRegexMatch_split[OF Some[unfolded t]] a have False by force
    then show ?thesis ..
  qed simp
qed

lemma headerRegexMatch_Some_iff:
  "headerRegexMatch fileContent = Some (b, m, g, r) \<longleftrightarrow>
     fileContent = b @ m @ r \<and> (b = [] \<or> isLineTerminator (last b)) \<and>
     matchHeaderAt (m @ r) = Some (m, g, r) \<and>
     (\<forall>b1 b2. b = b1 @ b2 \<and> b2 \<noteq> [] \<and> (b1 = [] \<or> isLineTerminator (last b1)) \<longrightarrow>
        matchHeaderAt (b2 @ m @ r) = None)"
  (is "?L \<longleftrightarrow> ?R")
proof
  assume l: ?L
  then have s: "scanHeader True fileContent = Some (b, m, g, r)" by (simp add: headerRegexMatch_def)
  have "\<forall>b1 b2. b = b1 @ b2 \<and> b2 \<noteq> [] \<and> (b1 = [] \<or> isLineTerminator (last b1)) \<longrightarrow>
        matchHeaderAt (b2 @ m @ r) = None"
  proof (intro allI impI)
    fix b1 b2
    assume a: "b = b1 @ b2 \<and> b2 \<noteq> [] \<and> (b1 = [] \<or> isLineTerminator (last b1))"
    then have "b1 = [] \<and> True \<or> b1 \<noteq> [] \<and> isLineTerminator (last b1)" by auto
    with a show "matchHeaderAt (b2 @ m @ r) = None"
      using scanHeader_first[OF s, of b1 b2] by blast
  qed
  with headerRegexMatch_split[OF l] show ?R by simp
next
  assume r: ?R
  then have c: "fileContent = b @ m @ r" and st: "b = [] \<or> isLineTerminator (last b)"
    and mh: "matchHeaderAt (m @ r) = Some (m, g, r)"
    and first: "\<And>b1 b2. b = b1 @ b2 \<Longrightarrow> b2 \<noteq> [] \<Longrightarrow> b1 = [] \<or> isLineTerminator (last b1) \<Longrightarrow>
        matchHeaderAt (b2 @ m @ r) = None" by blast+
  show ?L
  proof (cases "headerRegexMatch fileContent")
    case None
    with c st mh show ?thesis unfolding headerRegexMatch_None_iff by force
  next
    case (Some t)
    obtain b' m' g' r' where t: "t = (b', m', g', r')" by (cases t)
    note some = Some[unfolded t]
    from headerRegexMatch_split[OF some] have c': "fileContent = b' @ m' @ r'"
      and st': "b' = [] \<or> isLineTerminator (last b')"
      and mh': "matchHeaderAt (m' @ r') = Some (m', g', r')" by simp_all
    from some have s': "scanHeader True fileContent = Some (b', m', g', r')"
      by (simp add: headerRegexMatch_def)
    from c c' have "b @ (m @ r) = b' @ (m' @ r')" by simp
    then obtain x where x: "b = b' @ x \<and> x @ (m @ r) = m' @ r' \<or> b @ x = b' \<and> m @ r = x @ (m' @ r')"
      unfolding append_eq_append_conv2 by blast
    have "x = []"
    proof (rule ccontr)
      assume xne: "x \<noteq> []"
      from x show False
      proof
        assume a: "b = b' @ x \<and> x @ (m @ r) = m' @ r'"
        with first[of b' x] xne st' have "matchHeaderAt (x @ m @ r) = None" by simp
        with a mh' show False by simp
      next
        assume a: "b @ x = b' \<and> m @ r = x @ (m' @ r')"
        from st have "b = [] \<and> True \<or> b \<noteq> [] \<and> isLineTerminator (last b)" by auto
        with scanHeader_first[OF s', of b x] a xne have "matchHeaderAt (x @ m' @ r') = None" by simp
        with a mh show False by simp
      qed
    qed
    with x have bb: "b' = b" and mr: "m' @ r' = m @ r" by auto
    from mh' have "matchHeaderAt (m @ r) = Some (m', g', r')" by (simp only: mr)
    with mh have "Some (m', g', r') = Some (m, g, r)" by (simp only:)
    then have "m' = m" "g' = g" "r' = r" by simp_all
    with some bb show ?thesis by (simp only:)
  qed
qed

subsection \<open>Titles of the file sections\<close>

text \<open>
  Claim C5, as stated, fails.  The content of \<open>a.md\<close> below does not begin with a
  heading: the header pattern does not match at its beginning.  Still the section of the
  file is titled by the heading of the second line, and that line is taken out of the
  content.
\<close>

theorem loader_leading_heading_counterexample:
  "matchHeaderAt ''intro\<newline>## Usage\<newline>Run it.'' = None \<and>
   fileSection ''a.md'' ''intro\<newline>## Usage\<newline>Run it.'' =
     Section ''Usage'' [TextEntry ''intro\<newline>Run it.''] \<and>
   fileSection ''a.md'' ''intro\<newline>## Usage\<newline>Run it.'' \<noteq>
     Section ''a.md'' [TextEntry ''intro\<newline>## Usage\<newline>Run it.'']"
  by code_simp

text \<open>
  Claim C5, amended.  The title comes from the first match of the header pattern at the
  beginning of any line of the content, not only of its first line.  When the name of
  the file does not end in \<open>.md\<close>, or no line of the content matches, the section is
  titled by the file name and holds the whole content as its one item.  When the name
  ends in \<open>.md\<close> and the first match is \<open>m\<close>, with text \<open>b\<close> before it and \<open>r\<close> after
  it and with second group \<open>g\<close>, the section is titled by \<open>g\<close> trimmed and its one item
  is \<open>b\<close> followed by \<open>r\<close>, trimmed; only when \<open>g\<close> is all white space is the section
  as in the first case.  Every regular file other than \<open>context.md\<close> that is left after
  the filter adds this section to the section of the directory.
\<close>

theorem loader_file_title:
  "(\<not> endsWith ''.md'' file \<or>
    (\<forall>b1 b2. fileContent = b1 @ b2 \<and> (b1 = [] \<or> isLineTerminator (last b1)) \<longrightarrow>
        matchHeaderAt b2 = None) \<longrightarrow>
      fileSection file fileContent = Section file [TextEntry fileContent]) \<and>
   (\<forall>b m g r.
      endsWith ''.md'' file \<and> fileContent = b @ m @ r \<and>
      (b = [] \<or> isLineTerminator (last b)) \<and> matchHeaderAt (m @ r) = Some (m, g, r) \<and>
      (\<forall>b1 b2. b = b1 @ b2 \<and> b2 \<noteq> [] \<and> (b1 = [] \<or> isLineTerminator (last b1)) \<longrightarrow>
          matchHeaderAt (b2 @ m @ r) = None) \<longrightarrow>
      fileSection file fileContent =
        (if trim g = [] then Section file [TextEntry fileContent]
         else Section (trim g) [TextEntry (trim (b @ r))])) \<and>
   (file \<noteq> ''context.md'' \<and> storage_isFile h (path_join h contextDir file) = Inr True \<and>
    storage_readFile h (path_join h contextDir file) = Inr fileContent \<longrightarrow>
      addFiles h contextDir (file # rest) main =
        addFiles h contextDir rest (addSection main (fileSection file fileContent)))"
proof (intro conjI allI impI)
  assume "\<not> endsWith ''.md'' file \<or>
    (\<forall>b1 b2. fileContent = b1 @ b2 \<and> (b1 = [] \<or> isLineTerminator (last b1)) \<longrightarrow>
        matchHeaderAt b2 = None)"
  then have "\<not> endsWith ''.md'' file \<or> headerRegexMatch fileContent = None"
    by (simp only: headerRegexMatch_None_iff)
  then show "fileSection file fileContent = Section file [TextEntry fileContent]"
    by (rule fileSection_plain)
next
  fix b m g r
  assume a: "endsWith ''.md'' file \<and> fileContent = b @ m @ r \<and>
      (b = [] \<or> isLineTerminator (last b)) \<and> matchHeaderAt (m @ r) = Some (m, g, r) \<and>
      (\<forall>b1 b2. b = b1 @ b2 \<and> b2 \<noteq> [] \<and> (b1 = [] \<or> isLineTerminator (last b1)) \<longrightarrow>
          matchHeaderAt (b2 @ m @ r) = None)"
  then have md: "endsWith ''.md'' file" by simp
  have hm: "headerRegexMatch fileContent = Some (b, m, g, r)"
    by (subst headerRegexMatch_Some_iff) (use a in blast)
  from fileSection_header[OF md hm]
  show "fileSection file fileContent =
        (if trim g = [] then Section file [TextEntry fileContent]
         else Section (trim g) [TextEntry (trim (b @ r))])" .
next
  assume "file \<noteq> ''context.md'' \<and> storage_isFile h (path_join h contextDir file) = Inr True \<and>
    storage_readFile h (path_join h contextDir file) = Inr fileContent"
  then show "addFiles h contextDir (file # rest) main =
        addFiles h contextDir rest (addSection main (fileSection file fileContent))"
    by simp
qed

theorem loader_file_title_witness:
  "fileSection ''a.md'' ''intro\<newline>## Usage\<newline>Run it.'' =
     Section ''Usage'' [TextEntry ''intro\<newline>Run it.''] \<and>
   fileSection ''notes.txt'' ''# Not a title\<newline>plain'' =
     Section ''notes.txt'' [TextEntry ''# Not a title\<newline>plain'']"
proof -
  let ?c = "''intro\<newline>## Usage\<newline>Run it.''"
  have md: "endsWith ''.md'' ''a.md''" by code_simp
  have nomd: "\<not> endsWith ''.md'' ''notes.txt''" by code_simp
  have hm: "headerRegexMatch ?c = Some (''intro\<newline>'', ''## Usage\<newline>'', ''Usage'', ''Run it.'')"
    by code_simp
  note hyp = iffD1[OF headerRegexMatch_Some_iff, OF hm]
  have t: "trim ''Usage'' = ''Usage''" and t2: "trim (''intro\<newline>'' @ ''Run it.'') = ''intro\<newline>Run it.''"
    by code_simp+
  note title = loader_file_title[of "''a.md''" ?c undefined undefined undefined undefined]
  from title md hyp have "fileSection ''a.md'' ?c =
        (if trim ''Usage'' = [] then Section ''a.md'' [TextEntry ?c]
         else Section (trim ''Usage'') [TextEntry (trim (''intro\<newline>'' @ ''Run it.''))])"
    by blast
  then have one: "fileSection ''a.md'' ?c = Section ''Usage'' [TextEntry ''intro\<newline>Run it.'']"
    by (simp only: t t2) simp
  from loader_file_title[of "''notes.txt''" "''# Not a title\<newline>plain''" undefined undefined undefined undefined] nomd
  have two: "fileSection ''notes.txt'' ''# Not a title\<newline>plain'' =
     Section ''notes.txt'' [TextEntry ''# Not a title\<newline>plain'']"
    by blast
  from one two show ?thesis by blast
qed

subsection \<open>Directories that fail\<close>









subsection \<open>A host to run the loader on\<close>

text \<open>
  A small file system with the collaborators that the loader does not define.

  The pattern compiler stands in for \<open>SafeRegex\<close>.  As a regular expression it knows
  three patterns (with the flag \<open>i\<close> they compare in lower case) and refuses every other
  one, the pattern \<open>(a+)+\<close> for its nested quantifiers, as the tests of the repository
  expect of \<open>create\<close>.  As a glob it takes every pattern of at most 500 characters, the
  \<open>maxLength\<close> that the loader sets (line 36): an asterisk stands for any characters,
  every other character for itself, letters are compared without case and the whole name
  has to match.  For a glob the characters \<open>(\<close>, \<open>+\<close> and \<open>)\<close> are ordinary ones, so
  \<open>(a+)+\<close> is the name of a file.

  The sanitiser stands in for \<open>createSafeError\<close> under the configuration that the
  loader finds: the loader sets none, \<open>initializeErrorHandling\<close> (lines 37 to 76 of
  \<open>src/error-handling.ts\<close>) redacts system paths in production only, and the tests of
  the repository expect the message to be shown in development mode.  It returns the
  message of the error as it is.
\<close>

definition toLowerChar :: "char \<Rightarrow> char" where
  "toLowerChar c =
     (case map_of (zip ''ABCDEFGHIJKLMNOPQRSTUVWXYZ'' ''abcdefghijklmnopqrstuvwxyz'') c of
        Some l \<Rightarrow> l
      | None \<Rightarrow> c)"

definition demoFiles :: "(string \<times> string) list" where
  "demoFiles =
     [(''/ctx/context.md'', ''# Project\<newline>About the project.''),
      (''/ctx/a.md'', ''intro\<newline>## Usage\<newline>Run it.''),
      (''/ctx/notes.txt'', ''# Not a title\<newline>plain''),
      (''/ctx/.hidden'', ''secret''),
      (''/ctx/PHOTO.JPG'', ''binary''),
      (''/other/b.md'', ''# B\<newline>body'')]"

definition demoListing :: "(string \<times> string list) list" where
  "demoListing =
     [(''/ctx'', [''context.md'', ''a.md'', ''notes.txt'', ''.hidden'', ''PHOTO.JPG'']),
      (''/other'', [''b.md''])]"

definition demoCreate :: "string \<Rightarrow> string \<Rightarrow> safe_regex_result" where
  "demoCreate pattern flags =
     (let fold = (\<lambda>s. if flags = ''i'' then map toLowerChar s else s) in
      if pattern = ''^[.]'' then
        \<lparr> safe = True, regex = Some (\<lambda>s. take 1 s = ''.''), error = None \<rparr>
      else if pattern = ''[.]jpg$'' then
        \<lparr> safe = True, regex = Some (\<lambda>s. endsWith ''.jpg'' (fold s)), error = None \<rparr>
      else if pattern = ''^/ctx$'' then
        \<lparr> safe = True, regex = Some (\<lambda>s. fold s = ''/ctx''), error = None \<rparr>
      else if pattern = ''(a+)+'' then
        \<lparr> safe = False, regex = None, error = Some ''Nested quantifiers detected'' \<rparr>
      else \<lparr> safe = False, regex = None, error = Some ''Invalid regular expression'' \<rparr>)"

primrec globMatch :: "string \<Rightarrow> string \<Rightarrow> bool" where
  "globMatch [] s = (s = [])"
| "globMatch (p # ps) s =
     (if p = CHR ''*'' then list_ex (\<lambda>k. globMatch ps (drop k s)) [0..<Suc (length s)]
      else s \<noteq> [] \<and> hd s = p \<and> globMatch ps (tl s))"

definition demoGlob :: "string \<Rightarrow> safe_regex_result" where
  "demoGlob pattern =
     (if 500 < length pattern then
        \<lparr> safe = False, regex = None, error = Some ''Pattern exceeds the maximum length'' \<rparr>
      else
        \<lparr> safe = True,
          regex = Some (\<lambda>s. globMatch (map toLowerChar pattern) (map toLowerChar s)),
          error = None \<rparr>)"

definition demoHost :: host where
  "demoHost =
     \<lparr> storage_exists = (\<lambda>p. Inr (map_of demoFiles p \<noteq> None)),
       storage_readFile = (\<lambda>p. case map_of demoFiles p of
                                   Some c \<Rightarrow> Inr c
                                 | None \<Rightarrow> Inl (Exn (''ENOENT: no such file or directory, open '' @ p))),
       storage_listFiles = (\<lambda>d. case map_of demoListing d of
                                    Some fs \<Rightarrow> Inr fs
                                  | None \<Rightarrow> Inl (Exn (''ENOENT: no such file or directory, scandir '' @ d))),
       storage_isFile = (\<lambda>p. Inr (map_of demoFiles p \<noteq> None)),
       path_join = (\<lambda>a b. a @ ''/'' @ b),
       path_basename = (\<lambda>p. rev (takeWhile (\<lambda>c. c \<noteq> CHR ''/'') (rev p))),
       safeRegex_create = demoCreate,
       safeRegex_globToRegex = demoGlob,
       safeError_message = (\<lambda>e dir. case e of Exn message \<Rightarrow> message) \<rparr>"


subsection \<open>What is logged of a failure\<close>





subsection \<open>Patterns that cannot be compiled\<close>














subsection \<open>Which files are excluded\<close>

lemma compilePattern_Some_iff:
  "fst (compilePattern h pattern) = Some m \<longleftrightarrow>
     usable (safeRegex_create h pattern ''i'') \<and> regex (safeRegex_create h pattern ''i'') = Some m \<or>
     \<not> usable (safeRegex_create h pattern ''i'') \<and> usable (safeRegex_globToRegex h pattern) \<and>
       regex (safeRegex_globToRegex h pattern) = Some m"
  by (auto simp: compilePattern_def Let_def)

lemma set_createSafeIgnorePatterns:
  "m \<in> set (fst (createSafeIgnorePatterns h ps)) \<longleftrightarrow>
     (\<exists>pattern \<in> set ps. fst (compilePattern h pattern) = Some m)"
proof (induction ps)
  case Nil
  then show ?case by (simp add: createSafeIgnorePatterns_def List.map_filter_simps)
next
  case (Cons p ps)
  then show ?case
    by (cases "fst (compilePattern h p)")
       (auto simp: createSafeIgnorePatterns_def List.map_filter_simps)
qed

text \<open>
  Claim C8, as stated, fails.  The pattern \<open>^/ctx$\<close> compiles and matches the path of the
  directory \<open>/ctx\<close>, yet it excludes none of the files of that directory: it matches
  neither a file name nor a joined path.
\<close>

theorem ignore_anchored_counterexample:
  "usable (safeRegex_create demoHost ''^/ctx$'' ''i'') \<and>
   the (regex (safeRegex_create demoHost ''^/ctx$'' ''i'')) ''/ctx'' \<and>
   filteredFiles demoHost (fst (createSafeIgnorePatterns demoHost [''^/ctx$''])) ''/ctx''
     [''a.md'', ''notes.txt''] = [''a.md'', ''notes.txt'']"
  by code_simp

text \<open>
  Claim C8, amended.  A listed file is left out exactly when the matcher of some pattern
  matches its name or its joined path.  The matcher of a pattern is the regular expression
  that \<open>create\<close> returns for the pattern and the flag \<open>i\<close> when that is usable;
  otherwise it is the one that \<open>globToRegex\<close> returns for the pattern alone, without a
  flag, when that is usable.  The files that are left are the ones the loop over the
  files of the directory runs through.
\<close>

theorem ignore_filter:
  "(\<forall>file. file \<in> set (filteredFiles h (fst (createSafeIgnorePatterns h ignorePatterns))
                                     contextDir files) \<longleftrightarrow>
      file \<in> set files \<and>
      \<not> (\<exists>pattern \<in> set ignorePatterns. \<exists>m.
            fst (compilePattern h pattern) = Some m \<and>
            (m file \<or> m (path_join h contextDir file)))) \<and>
   (\<forall>pattern m. fst (compilePattern h pattern) = Some m \<longleftrightarrow>
      usable (safeRegex_create h pattern ''i'') \<and>
        regex (safeRegex_create h pattern ''i'') = Some m \<or>
      \<not> usable (safeRegex_create h pattern ''i'') \<and> usable (safeRegex_globToRegex h pattern) \<and>
        regex (safeRegex_globToRegex h pattern) = Some m) \<and>
   (\<forall>main. mainContextSection h contextDir = Inr main \<and>
           storage_listFiles h contextDir = Inr files \<longrightarrow>
      snd (processDirectory h ignorePatterns contextDir) =
        addFiles h contextDir
          (filteredFiles h (fst (createSafeIgnorePatterns h ignorePatterns)) contextDir files)
          main)"
proof (intro conjI allI impI)
  fix f
  show "f \<in> set (filteredFiles h (fst (createSafeIgnorePatterns h ignorePatterns))
                                     contextDir files) \<longleftrightarrow>
      f \<in> set files \<and>
      \<not> (\<exists>pattern \<in> set ignorePatterns. \<exists>m.
            fst (compilePattern h pattern) = Some m \<and>
            (m f \<or> m (path_join h contextDir f)))"
    unfolding filteredFiles_def set_filter list_ex_iff mem_Collect_eq
    using set_createSafeIgnorePatterns[of _ h ignorePatterns] by blast
next
  fix pattern m
  show "fst (compilePattern h pattern) = Some m \<longleftrightarrow>
      usable (safeRegex_create h pattern ''i'') \<and>
        regex (safeRegex_create h pattern ''i'') = Some m \<or>
      \<not> usable (safeRegex_create h pattern ''i'') \<and> usable (safeRegex_globToRegex h pattern) \<and>
        regex (safeRegex_globToRegex h pattern) = Some m"
    by (rule compilePattern_Some_iff)
next
  fix main
  assume "mainContextSection h contextDir = Inr main \<and> storage_listFiles h contextDir = Inr files"
  then show "snd (processDirectory h ignorePatterns contextDir) =
        addFiles h contextDir
          (filteredFiles h (fst (createSafeIgnorePatterns h ignorePatterns)) contextDir files)
          main"
    by (simp add: processDirectory_def Let_def split: prod.splits)
qed

theorem ignore_filter_witness:
  "''PHOTO.JPG'' \<notin> set (filteredFiles demoHost
       (fst (createSafeIgnorePatterns demoHost [''[.]jpg$'', ''*.txt''])) ''/ctx''
       [''context.md'', ''a.md'', ''notes.txt'', ''.hidden'', ''PHOTO.JPG'']) \<and>
   ''a.md'' \<in> set (filteredFiles demoHost
       (fst (createSafeIgnorePatterns demoHost [''[.]jpg$'', ''*.txt''])) ''/ctx''
       [''context.md'', ''a.md'', ''notes.txt'', ''.hidden'', ''PHOTO.JPG'']) \<and>
   snd (processDirectory demoHost [''[.]jpg$'', ''*.txt''] ''/ctx'') =
     Inr (Section ''Project''
        [TextEntry ''About the project.'',
         SubSection (Section ''Usage'' [TextEntry ''intro\<newline>Run it.'']),
         SubSection (Section ''.hidden'' [TextEntry ''secret''])])"
proof -
  let ?ps = "[''[.]jpg$'', ''*.txt'']"
  let ?files = "[''context.md'', ''a.md'', ''notes.txt'', ''.hidden'', ''PHOTO.JPG'']"
  note filt = ignore_filter[of demoHost ?ps "''/ctx''" ?files]
  obtain m where m: "regex (safeRegex_create demoHost ''[.]jpg$'' ''i'') = Some m"
    by (simp add: demoHost_def demoCreate_def)
  have u: "usable (safeRegex_create demoHost ''[.]jpg$'' ''i'')"
    by (simp add: demoHost_def demoCreate_def usable_def)
  have hit: "m ''PHOTO.JPG''"
    using m by (auto simp: demoHost_def demoCreate_def endsWith_def toLowerChar_def)
  from filt u m have c: "fst (compilePattern demoHost ''[.]jpg$'') = Some m" by blast
  with filt hit have one: "''PHOTO.JPG'' \<notin> set (filteredFiles demoHost
       (fst (createSafeIgnorePatterns demoHost ?ps)) ''/ctx'' ?files)"
    by auto
  have two: "''a.md'' \<in> set (filteredFiles demoHost
       (fst (createSafeIgnorePatterns demoHost ?ps)) ''/ctx'' ?files)"
    by code_simp
  have ms: "mainContextSection demoHost ''/ctx'' =
      Inr (Section ''Project'' [TextEntry ''About the project.''])"
    by code_simp
  have ls: "storage_listFiles demoHost ''/ctx'' = Inr ?files"
    by code_simp
  from filt ms ls have "snd (processDirectory demoHost ?ps ''/ctx'') =
        addFiles demoHost ''/ctx''
          (filteredFiles demoHost (fst (createSafeIgnorePatterns demoHost ?ps)) ''/ctx'' ?files)
          (Section ''Project'' [TextEntry ''About the project.''])"
    by blast
  moreover have "addFiles demoHost ''/ctx''
          (filteredFiles demoHost (fst (createSafeIgnorePatterns demoHost ?ps)) ''/ctx'' ?files)
          (Section ''Project'' [TextEntry ''About the project.'']) =
     Inr (Section ''Project''
        [TextEntry ''About the project.'',
         SubSection (Section ''Usage'' [TextEntry ''intro\<newline>Run it.'']),
         SubSection (Section ''.hidden'' [TextEntry ''secret''])])"
    by code_simp
  ultimately show ?thesis using one two by simp
qed

section \<open>\<open>mapSchema\<close> on a store\<close>

text \<open>
  Whether \<open>mapSchema\<close> changes the object it is given is a question about objects that
  are shared and mutated, so \<open>mapSchema\<close> is modelled a second time, on a store.  A value
  is a primitive or a reference; the store is the list of the objects and arrays allocated
  so far, and the address of one is its index.  An object literal or a spread allocates:
  it appends a cell.  An assignment \<open>o[k] = v\<close> and a \<open>delete o[k]\<close> replace the cell
  at the address of \<open>o\<close>.
\<close>

datatype jsval =
    VUndefined
  | VNull
  | VBool bool
  | VNum int
  | VStr string
  | VRef nat

datatype cell = ObjCell "(string \<times> jsval) list" | ArrCell "jsval list"

type_synonym heap = "cell list"

fun truthyV :: "jsval \<Rightarrow> bool" where
  "truthyV VUndefined = False"
| "truthyV VNull = False"
| "truthyV (VBool b) = b"
| "truthyV (VNum n) = (n \<noteq> 0)"
| "truthyV (VStr s) = (s \<noteq> [])"
| "truthyV (VRef a) = True"

fun cellEntries :: "cell \<Rightarrow> (string \<times> jsval) list" where
  "cellEntries (ObjCell kvs) = kvs"
| "cellEntries (ArrCell xs) = indexed xs"

fun ownEntriesH :: "heap \<Rightarrow> jsval \<Rightarrow> (string \<times> jsval) list option" where
  "ownEntriesH H (VRef a) = (if a < length H then Some (cellEntries (H ! a)) else None)"
| "ownEntriesH H (VStr s) = Some (indexed (map (\<lambda>c. VStr [c]) s))"
| "ownEntriesH H _ = Some []"

definition getV :: "(string \<times> jsval) list \<Rightarrow> string \<Rightarrow> jsval" where
  "getV kvs k = (case map_of kvs k of Some v \<Rightarrow> v | None \<Rightarrow> VUndefined)"

definition readProp :: "heap \<Rightarrow> nat \<Rightarrow> string \<Rightarrow> jsval" where
  "readProp H a k = getV (cellEntries (H ! a)) k"

definition writeProp :: "heap \<Rightarrow> nat \<Rightarrow> string \<Rightarrow> jsval \<Rightarrow> heap" where
  "writeProp H a k v = H[a := ObjCell (AList.update k v (cellEntries (H ! a)))]"

definition removeProp :: "heap \<Rightarrow> nat \<Rightarrow> string \<Rightarrow> heap" where
  "removeProp H a k = H[a := ObjCell (AList.delete k (cellEntries (H ! a)))]"

text \<open>
  The loop of lines 53 to 55: \<open>newProps[key] = mapSchema(val)\<close> for every entry of
  \<open>properties\<close>, with the store threaded through the calls.
\<close>

fun forEntries ::
  "(heap \<Rightarrow> jsval \<Rightarrow> (heap \<times> jsval) option) \<Rightarrow> nat \<Rightarrow> (string \<times> jsval) list \<Rightarrow> heap
     \<Rightarrow> heap option" where
  "forEntries f newProps [] H = Some H"
| "forEntries f newProps ((key, val) # rest) H =
     (case f H val of
        None \<Rightarrow> None
      | Some (H', r) \<Rightarrow> forEntries f newProps rest (writeProp H' newProps key r))"

text \<open>
  The four blocks of the body, lines 45 to 65, on the copy at the address \<open>newSchema\<close>.
\<close>

definition typeStep :: "heap \<Rightarrow> nat \<Rightarrow> heap" where
  "typeStep H newSchema =
     (if truthyV (readProp H newSchema ''type'')
      then writeProp H newSchema ''type''
             (case readProp H newSchema ''type'' of
                VStr t \<Rightarrow> VStr (toUpperCase t)
              | v \<Rightarrow> v)
      else H)"

definition propertiesStep ::
  "(heap \<Rightarrow> jsval \<Rightarrow> (heap \<times> jsval) option) \<Rightarrow> heap \<Rightarrow> nat \<Rightarrow> heap option" where
  "propertiesStep f H newSchema =
     (if truthyV (readProp H newSchema ''properties'')
      then (case ownEntriesH H (readProp H newSchema ''properties'') of
              None \<Rightarrow> None
            | Some props \<Rightarrow>
                (case forEntries f (length H) props (H @ [ObjCell []]) of
                   None \<Rightarrow> None
                 | Some H' \<Rightarrow> Some (writeProp H' newSchema ''properties'' (VRef (length H)))))
      else Some H)"

definition itemsStep ::
  "(heap \<Rightarrow> jsval \<Rightarrow> (heap \<times> jsval) option) \<Rightarrow> heap \<Rightarrow> nat \<Rightarrow> heap option" where
  "itemsStep f H newSchema =
     (if truthyV (readProp H newSchema ''items'')
      then (case f H (readProp H newSchema ''items'') of
              None \<Rightarrow> None
            | Some (H', r) \<Rightarrow> Some (writeProp H' newSchema ''items'' r))
      else Some H)"

definition deleteStep :: "heap \<Rightarrow> nat \<Rightarrow> heap" where
  "deleteStep H newSchema =
     removeProp (removeProp H newSchema ''additionalProperties'') newSchema ''$schema''"

text \<open>
  A schema that contains itself makes the source recurse without end.  The model counts
  the depth of the recursion down: \<open>None\<close> is a recursion deeper than \<open>fuel\<close>, or a
  reference to an address that was never allocated.
\<close>

primrec mapSchemaH :: "nat \<Rightarrow> heap \<Rightarrow> jsval \<Rightarrow> (heap \<times> jsval) option" where
  "mapSchemaH 0 H s = None"
| "mapSchemaH (Suc fuel) H s =
     (if \<not> truthyV s then Some (H, VUndefined)
      else
        case ownEntriesH H s of
          None \<Rightarrow> None
        | Some entries \<Rightarrow>
            (case propertiesStep (mapSchemaH fuel)
                    (typeStep (H @ [ObjCell entries]) (length H)) (length H) of
               None \<Rightarrow> None
             | Some H' \<Rightarrow>
                 (case itemsStep (mapSchemaH fuel) H' (length H) of
                    None \<Rightarrow> None
                  | Some H'' \<Rightarrow> Some (deleteStep H'' (length H), VRef (length H)))))"

text \<open>
  A store with the schema \<open>{type:'object', properties:{x:{type:'string'}}, required:['x'],
  additionalProperties:false}\<close> at address 0.
\<close>

definition demoHeap :: heap where
  "demoHeap =
     [ObjCell [(''type'', VStr ''object''), (''properties'', VRef 1), (''required'', VRef 3),
               (''additionalProperties'', VBool False)],
      ObjCell [(''x'', VRef 2)],
      ObjCell [(''type'', VStr ''string'')],
      ArrCell [VStr ''x'']]"


subsection \<open>The old store is a prefix of the new one\<close>

definition extends :: "heap \<Rightarrow> heap \<Rightarrow> bool" where
  "extends H H' = (\<exists>ext. H' = H @ ext)"

lemma extends_refl: "extends H H"
  by (simp add: extends_def)

lemma extends_trans: "extends H H' \<Longrightarrow> extends H' H'' \<Longrightarrow> extends H H''"
  by (auto simp: extends_def)

lemma extends_append: "extends H H' \<Longrightarrow> extends H (H' @ xs)"
  by (auto simp: extends_def)

lemma extends_update: "extends H H' \<Longrightarrow> length H \<le> a \<Longrightarrow> extends H (H'[a := c])"
  by (auto simp: extends_def list_update_append)

lemma extends_writeProp: "extends H H' \<Longrightarrow> length H \<le> a \<Longrightarrow> extends H (writeProp H' a k v)"
  by (simp add: writeProp_def extends_update)

lemma extends_removeProp: "extends H H' \<Longrightarrow> length H \<le> a \<Longrightarrow> extends H (removeProp H' a k)"
  by (simp add: removeProp_def extends_update)

lemma extends_nth: "extends H H' \<Longrightarrow> a < length H \<Longrightarrow> H' ! a = H ! a"
  by (auto simp: extends_def nth_append)

lemma extends_length: "extends H H' \<Longrightarrow> length H \<le> length H'"
  by (auto simp: extends_def)

lemma extends_take: "extends H H' \<Longrightarrow> take (length H) H' = H"
  by (auto simp: extends_def)

definition framed :: "(heap \<Rightarrow> jsval \<Rightarrow> (heap \<times> jsval) option) \<Rightarrow> bool" where
  "framed f = (\<forall>H v H' r. f H v = Some (H', r) \<longrightarrow> extends H H')"

lemma framedD: "framed f \<Longrightarrow> f H v = Some (H', r) \<Longrightarrow> extends H H'"
  unfolding framed_def by blast

lemma length_writeProp [simp]: "length (writeProp H a k v) = length H"
  by (simp add: writeProp_def)

lemma length_removeProp [simp]: "length (removeProp H a k) = length H"
  by (simp add: removeProp_def)

lemma length_typeStep [simp]: "length (typeStep H a) = length H"
  by (simp add: typeStep_def)

lemma length_deleteStep [simp]: "length (deleteStep H a) = length H"
  by (simp add: deleteStep_def)

lemma forEntries_extends:
  assumes "framed f"
  shows "forEntries f newProps props H = Some H' \<Longrightarrow> extends H0 H \<Longrightarrow> length H0 \<le> newProps \<Longrightarrow>
         extends H0 H'"
proof (induction props arbitrary: H)
  case Nil
  then show ?case by simp
next
  case (Cons kv props)
  obtain key val where kv: "kv = (key, val)" by (cases kv)
  from Cons.prems(1) kv obtain H1 r where f: "f H val = Some (H1, r)"
    and rest: "forEntries f newProps props (writeProp H1 newProps key r) = Some H'"
    by (auto split: option.splits)
  from framedD[OF assms f] Cons.prems(2) have "extends H0 H1" by (blast intro: extends_trans)
  then have "extends H0 (writeProp H1 newProps key r)"
    using Cons.prems(3) by (rule extends_writeProp)
  from Cons.IH[OF rest this Cons.prems(3)] show ?case .
qed

lemma forEntries_length:
  assumes "framed f"
  shows "forEntries f newProps props H = Some H' \<Longrightarrow> length H \<le> length H'"
proof (induction props arbitrary: H)
  case Nil
  then show ?case by simp
next
  case (Cons kv props)
  obtain key val where kv: "kv = (key, val)" by (cases kv)
  from Cons.prems(1) kv obtain H1 r where f: "f H val = Some (H1, r)"
    and rest: "forEntries f newProps props (writeProp H1 newProps key r) = Some H'"
    by (auto split: option.splits)
  from framedD[OF assms f] have "length H \<le> length H1" by (rule extends_length)
  with Cons.IH[OF rest] show ?case by simp
qed

lemma typeStep_extends: "extends H0 H \<Longrightarrow> length H0 \<le> a \<Longrightarrow> extends H0 (typeStep H a)"
  by (simp add: typeStep_def extends_writeProp)

lemma deleteStep_extends: "extends H0 H \<Longrightarrow> length H0 \<le> a \<Longrightarrow> extends H0 (deleteStep H a)"
  by (simp add: deleteStep_def extends_removeProp)

lemma propertiesStep_cases:
  assumes "propertiesStep f H a = Some H'"
  obtains (skip) "\<not> truthyV (readProp H a ''properties'')" and "H' = H"
  | (loop) props H1 where "truthyV (readProp H a ''properties'')"
      and "ownEntriesH H (readProp H a ''properties'') = Some props"
      and "forEntries f (length H) props (H @ [ObjCell []]) = Some H1"
      and "H' = writeProp H1 a ''properties'' (VRef (length H))"
  using assms by (auto simp: propertiesStep_def split: option.splits if_splits)

lemma itemsStep_cases:
  assumes "itemsStep f H a = Some H'"
  obtains (skip) "\<not> truthyV (readProp H a ''items'')" and "H' = H"
  | (call) H1 r where "truthyV (readProp H a ''items'')"
      and "f H (readProp H a ''items'') = Some (H1, r)"
      and "H' = writeProp H1 a ''items'' r"
  using assms by (auto simp: itemsStep_def split: option.splits if_splits)

lemma propertiesStep_extends:
  assumes "framed f" and "propertiesStep f H a = Some H'" and "extends H0 H" and "length H0 \<le> a"
  shows "extends H0 H'"
  using assms(2)
proof (cases rule: propertiesStep_cases)
  case skip
  with assms(3) show ?thesis by simp
next
  case (loop props H1)
  from assms(3) have "extends H0 (H @ [ObjCell []])" by (rule extends_append)
  moreover from assms(3) have "length H0 \<le> length H" by (rule extends_length)
  ultimately have "extends H0 H1" by (rule forEntries_extends[OF assms(1) loop(3)])
  then show ?thesis unfolding loop(4) using assms(4) by (rule extends_writeProp)
qed

lemma propertiesStep_length:
  assumes "framed f" and "propertiesStep f H a = Some H'"
  shows "length H \<le> length H'"
  using assms(2)
proof (cases rule: propertiesStep_cases)
  case skip
  then show ?thesis by simp
next
  case (loop props H1)
  from forEntries_length[OF assms(1) loop(3)] show ?thesis unfolding loop(4) by simp
qed

lemma itemsStep_extends:
  assumes "framed f" and "itemsStep f H a = Some H'" and "extends H0 H" and "length H0 \<le> a"
  shows "extends H0 H'"
  using assms(2)
proof (cases rule: itemsStep_cases)
  case skip
  with assms(3) show ?thesis by simp
next
  case (call H1 r)
  from framedD[OF assms(1) call(2)] assms(3) have "extends H0 H1" by (blast intro: extends_trans)
  then show ?thesis unfolding call(3) using assms(4) by (rule extends_writeProp)
qed

lemma itemsStep_length:
  assumes "framed f" and "itemsStep f H a = Some H'"
  shows "length H \<le> length H'"
  using assms(2)
proof (cases rule: itemsStep_cases)
  case skip
  then show ?thesis by simp
next
  case (call H1 r)
  from framedD[OF assms(1) call(2)] have "length H \<le> length H1" by (rule extends_length)
  then show ?thesis unfolding call(3) by simp
qed

lemma mapSchemaH_cases:
  assumes "mapSchemaH fuel H s = Some (H', r)"
  obtains (falsy) "\<not> truthyV s" and "H' = H" and "r = VUndefined"
  | (copy) n entries H1 H2 where "fuel = Suc n" and "truthyV s"
      and "ownEntriesH H s = Some entries"
      and "propertiesStep (mapSchemaH n) (typeStep (H @ [ObjCell entries]) (length H)) (length H)
             = Some H1"
      and "itemsStep (mapSchemaH n) H1 (length H) = Some H2"
      and "H' = deleteStep H2 (length H)" and "r = VRef (length H)"
  using assms by (cases fuel) (auto split: option.splits if_splits)

lemma mapSchemaH_framed: "framed (mapSchemaH fuel)"
proof (induction fuel)
  case 0
  then show ?case by (simp add: framed_def)
next
  case (Suc fuel)
  show ?case unfolding framed_def
  proof (intro allI impI)
    fix H s H' r
    assume "mapSchemaH (Suc fuel) H s = Some (H', r)"
    then show "extends H H'"
    proof (cases rule: mapSchemaH_cases)
      case falsy
      then show ?thesis by (simp add: extends_refl)
    next
      case (copy n entries H1 H2)
      from copy(1) have n: "n = fuel" by simp
      have "extends H (H @ [ObjCell entries])" by (simp add: extends_def)
      then have "extends H (typeStep (H @ [ObjCell entries]) (length H))"
        by (rule typeStep_extends) simp
      then have "extends H H1"
        using propertiesStep_extends[OF Suc.IH copy(4)[unfolded n]] by simp
      then have "extends H H2"
        using itemsStep_extends[OF Suc.IH copy(5)[unfolded n]] by simp
      then show ?thesis unfolding copy(6) by (rule deleteStep_extends) simp
    qed
  qed
qed

lemma mapSchemaH_fresh:
  assumes "mapSchemaH fuel H s = Some (H', r)" and "truthyV s"
  shows "r = VRef (length H) \<and> length H < length H'"
  using assms(1)
proof (cases rule: mapSchemaH_cases)
  case falsy
  with assms(2) show ?thesis by simp
next
  case (copy n entries H1 H2)
  from propertiesStep_length[OF mapSchemaH_framed copy(4)] have "length H < length H1" by simp
  with itemsStep_length[OF mapSchemaH_framed copy(5)] have "length H < length H2" by simp
  with copy(6,7) show ?thesis by simp
qed

subsection \<open>The value that a reference stands for\<close>

text \<open>
  \<open>valueOf depth H v\<close> reads the value \<open>v\<close> out of the store \<open>H\<close> as a tree, when it is
  one of depth less than \<open>depth\<close>.
\<close>

primrec valueOf :: "nat \<Rightarrow> heap \<Rightarrow> jsval \<Rightarrow> json option" where
  "valueOf 0 H v = None"
| "valueOf (Suc depth) H v =
     (case v of
        VUndefined \<Rightarrow> Some JUndefined
      | VNull \<Rightarrow> Some JNull
      | VBool b \<Rightarrow> Some (JBool b)
      | VNum i \<Rightarrow> Some (JNum i)
      | VStr s \<Rightarrow> Some (JStr s)
      | VRef a \<Rightarrow>
          if a < length H then
            (case H ! a of
               ObjCell kvs \<Rightarrow>
                 map_option JObj
                   (those (map (\<lambda>(k, v'). map_option (Pair k) (valueOf depth H v')) kvs))
             | ArrCell xs \<Rightarrow> map_option JArr (those (map (valueOf depth H) xs)))
          else None)"


lemma those_Some_all: "those xs = Some ys \<Longrightarrow> x \<in> set xs \<Longrightarrow> \<exists>y. x = Some y"
  by (induction xs arbitrary: ys) (auto split: option.splits)

lemma those_map_cong:
  assumes "\<And>x. x \<in> set xs \<Longrightarrow> f x = g x"
  shows "those (map f xs) = those (map g xs)"
proof -
  have "map f xs = map g xs" by (rule map_cong) (simp_all add: assms)
  then show ?thesis by (rule arg_cong)
qed

lemma length_indexed [simp]: "length (indexed xs) = length xs"
  by (simp add: indexed_def)

lemma indexed_values: "x \<in> set xs \<Longrightarrow> \<exists>k. (k, x) \<in> set (indexed xs)"
proof -
  assume "x \<in> set xs"
  then obtain i where i: "i < length xs" and x: "x = xs ! i" by (auto simp: in_set_conv_nth)
  from i have "indexed xs ! i = (decimal i, xs ! i)" by (simp add: indexed_def)
  moreover from i have "indexed xs ! i \<in> set (indexed xs)" by (intro nth_mem) simp
  ultimately show ?thesis using x by auto
qed

lemma those_map_Some_elem:
  assumes "those (map f xs) = Some ys" and "x \<in> set xs"
  shows "\<exists>y. f x = Some y"
  using those_Some_all[OF assms(1), of "f x"] assms(2) by auto

lemma valueOf_ref:
  "a < length H \<Longrightarrow>
   valueOf (Suc n) H (VRef a) =
     (case H ! a of
        ObjCell kvs \<Rightarrow>
          map_option JObj (those (map (\<lambda>(k, v'). map_option (Pair k) (valueOf n H v')) kvs))
      | ArrCell xs \<Rightarrow> map_option JArr (those (map (valueOf n H) xs)))"
  by simp

definition denotes :: "nat \<Rightarrow> heap \<Rightarrow> jsval \<Rightarrow> bool" where
  "denotes depth H v = (valueOf depth H v \<noteq> None)"

lemma valueOf_children:
  assumes "valueOf (Suc n) H (VRef a) = Some j"
  shows "a < length H \<and> (\<forall>(k, v) \<in> set (cellEntries (H ! a)). denotes n H v)"
proof -
  from assms have a: "a < length H" by (auto split: if_splits)
  show ?thesis
  proof (cases "H ! a")
    case (ObjCell kvs)
    with assms a obtain ys where
      t: "those (map (\<lambda>(k, v'). map_option (Pair k) (valueOf n H v')) kvs) = Some ys"
      by auto
    have "\<forall>(k, v) \<in> set kvs. denotes n H v"
    proof (intro ballI, clarify)
      fix k v assume "(k, v) \<in> set kvs"
      from those_map_Some_elem[OF t this] show "denotes n H v"
        by (auto simp: denotes_def)
    qed
    with a ObjCell show ?thesis by simp
  next
    case (ArrCell xs)
    with assms a obtain ys where t: "those (map (valueOf n H) xs) = Some ys" by auto
    have "\<forall>(k, v) \<in> set (indexed xs). denotes n H v"
    proof (intro ballI, clarify)
      fix k v assume "(k, v) \<in> set (indexed xs)"
      then have "v \<in> set xs" by (auto simp: indexed_def dest: set_zip_rightD)
      from those_map_Some_elem[OF t this] show "denotes n H v"
        by (auto simp: denotes_def)
    qed
    with a ArrCell show ?thesis by simp
  qed
qed

lemma valueOf_extends:
  "extends H H' \<Longrightarrow> valueOf n H v = Some j \<Longrightarrow> valueOf n H' v = Some j"
proof (induction n arbitrary: v j)
  case 0
  then show ?case by simp
next
  case (Suc n)
  show ?case
  proof (cases v)
    case (VRef a)
    note prem = Suc.prems(2)[unfolded VRef]
    from valueOf_children[OF prem]
    have a: "a < length H" and ch: "\<forall>(k, v) \<in> set (cellEntries (H ! a)). denotes n H v" by simp_all
    from Suc.prems(1) a have cell: "H' ! a = H ! a" by (rule extends_nth)
    from extends_length[OF Suc.prems(1)] a have a': "a < length H'" by simp
    have same: "valueOf n H' w = valueOf n H w" if "denotes n H w" for w
    proof -
      from that obtain jw where "valueOf n H w = Some jw" by (auto simp: denotes_def)
      with Suc.IH[OF Suc.prems(1) this] show ?thesis by simp
    qed
    show ?thesis
    proof (cases "H ! a")
      case (ObjCell kvs)
      have "those (map (\<lambda>(k, v'). map_option (Pair k) (valueOf n H' v')) kvs) =
            those (map (\<lambda>(k, v'). map_option (Pair k) (valueOf n H v')) kvs)"
      proof (rule those_map_cong)
        fix x assume x: "x \<in> set kvs"
        obtain k w where kw: "x = (k, w)" by (cases x)
        with x ch ObjCell have "denotes n H w" by auto
        from same[OF this] show "(case x of (k, v') \<Rightarrow> map_option (Pair k) (valueOf n H' v')) =
              (case x of (k, v') \<Rightarrow> map_option (Pair k) (valueOf n H v'))"
          by (simp add: kw)
      qed
      with prem ObjCell show ?thesis unfolding VRef
        by (simp only: valueOf_ref[OF a] valueOf_ref[OF a'] cell cell.case)
    next
      case (ArrCell xs)
      have "those (map (valueOf n H') xs) = those (map (valueOf n H) xs)"
      proof (rule those_map_cong)
        fix x assume xin: "x \<in> set xs"
        from indexed_values[OF xin] obtain k where "(k, x) \<in> set (indexed xs)" ..
        with ch ArrCell have "denotes n H x" by auto
        then show "valueOf n H' x = valueOf n H x" by (rule same)
      qed
      with prem ArrCell show ?thesis unfolding VRef
        by (simp only: valueOf_ref[OF a] valueOf_ref[OF a'] cell cell.case)
    qed
  qed (use Suc.prems in simp_all)
qed

lemma valueOf_mono: "valueOf n H v = Some j \<Longrightarrow> valueOf (Suc n) H v = Some j"
proof (induction n arbitrary: v j)
  case 0
  then show ?case by simp
next
  case (Suc n)
  show ?case
  proof (cases v)
    case (VRef a)
    note prem = Suc.prems[unfolded VRef]
    from valueOf_children[OF prem]
    have a: "a < length H" and ch: "\<forall>(k, v) \<in> set (cellEntries (H ! a)). denotes n H v" by simp_all
    have same: "valueOf (Suc n) H w = valueOf n H w" if "denotes n H w" for w
    proof -
      from that obtain jw where "valueOf n H w = Some jw" by (auto simp: denotes_def)
      with Suc.IH[OF this] show ?thesis by (simp only:)
    qed
    show ?thesis
    proof (cases "H ! a")
      case (ObjCell kvs)
      have "those (map (\<lambda>(k, v'). map_option (Pair k) (valueOf (Suc n) H v')) kvs) =
            those (map (\<lambda>(k, v'). map_option (Pair k) (valueOf n H v')) kvs)"
      proof (rule those_map_cong)
        fix x assume x: "x \<in> set kvs"
        obtain k w where kw: "x = (k, w)" by (cases x)
        with x ch ObjCell have "denotes n H w" by auto
        from same[OF this] show "(case x of (k, v') \<Rightarrow> map_option (Pair k) (valueOf (Suc n) H v')) =
              (case x of (k, v') \<Rightarrow> map_option (Pair k) (valueOf n H v'))"
          by (simp only: kw prod.case)
      qed
      with prem ObjCell show ?thesis unfolding VRef
        by (simp only: valueOf_ref[OF a] cell.case)
    next
      case (ArrCell xs)
      have "those (map (valueOf (Suc n) H) xs) = those (map (valueOf n H) xs)"
      proof (rule those_map_cong)
        fix x assume xin: "x \<in> set xs"
        from indexed_values[OF xin] obtain k where "(k, x) \<in> set (indexed xs)" ..
        with ch ArrCell have "denotes n H x" by auto
        then show "valueOf (Suc n) H x = valueOf n H x" by (rule same)
      qed
      with prem ArrCell show ?thesis unfolding VRef
        by (simp only: valueOf_ref[OF a] cell.case)
    qed
  qed (use Suc.prems in simp_all)
qed

subsection \<open>The copy is only written where the source writes it\<close>

lemma map_of_indexed_named:
  assumes "c \<in> set k" and "\<not> isDigit c"
  shows "map_of (indexed xs) k = None"
proof (cases "map_of (indexed xs) k")
  case (Some v)
  then have "(k, v) \<in> set (indexed xs)" by (rule map_of_SomeD)
  from indexed_key_digits[OF this assms(1)] assms(2) show ?thesis by simp
qed simp

lemma getV_indexed_properties [simp]: "getV (indexed xs) ''properties'' = VUndefined"
  using map_of_indexed_named[of "CHR ''p''" "''properties''" xs]
  by (simp add: getV_def isDigit_def)

lemma getV_indexed_items [simp]: "getV (indexed xs) ''items'' = VUndefined"
  using map_of_indexed_named[of "CHR ''i''" "''items''" xs]
  by (simp add: getV_def isDigit_def)

lemma getV_cases: "getV kvs k = VUndefined \<or> (k, getV kvs k) \<in> set kvs"
  by (auto simp: getV_def split: option.splits dest: map_of_SomeD)

lemma readProp_new [simp]: "readProp (H @ [c]) (length H) k = getV (cellEntries c) k"
  by (simp add: readProp_def)

lemma readProp_writeProp:
  "a < length H \<Longrightarrow> readProp (writeProp H a k v) a k' = (if k' = k then v else readProp H a k')"
  by (simp add: readProp_def writeProp_def getV_def update_conv')

lemma readProp_writeProp_other:
  "a \<noteq> b \<Longrightarrow> readProp (writeProp H b k v) a k' = readProp H a k'"
  by (simp add: readProp_def writeProp_def)

lemma readProp_typeStep:
  "a < length H \<Longrightarrow> k \<noteq> ''type'' \<Longrightarrow> readProp (typeStep H a) a k = readProp H a k"
  by (simp add: typeStep_def readProp_writeProp)

lemma readProp_extends: "extends H H' \<Longrightarrow> a < length H \<Longrightarrow> readProp H' a k = readProp H a k"
  by (simp add: readProp_def extends_nth)

lemma forEntries_readProp:
  assumes "framed f"
  shows "forEntries f newProps props H = Some H' \<Longrightarrow> a < length H \<Longrightarrow> a \<noteq> newProps \<Longrightarrow>
         readProp H' a k = readProp H a k"
proof (induction props arbitrary: H)
  case Nil
  then show ?case by simp
next
  case (Cons kv props)
  obtain key val where kv: "kv = (key, val)" by (cases kv)
  from Cons.prems(1) kv obtain H1 r where f: "f H val = Some (H1, r)"
    and rest: "forEntries f newProps props (writeProp H1 newProps key r) = Some H'"
    by (auto split: option.splits)
  note e = framedD[OF assms f]
  from extends_length[OF e] Cons.prems(2) have "a < length (writeProp H1 newProps key r)" by simp
  from Cons.IH[OF rest this Cons.prems(3)]
  have "readProp H' a k = readProp (writeProp H1 newProps key r) a k" .
  also have "\<dots> = readProp H1 a k" using Cons.prems(3) by (rule readProp_writeProp_other)
  also have "\<dots> = readProp H a k" using e Cons.prems(2) by (rule readProp_extends)
  finally show ?case .
qed

lemma propertiesStep_readProp:
  assumes "framed f" and "propertiesStep f H a = Some H'" and "a < length H"
    and "k \<noteq> ''properties''"
  shows "readProp H' a k = readProp H a k"
  using assms(2)
proof (cases rule: propertiesStep_cases)
  case skip
  then show ?thesis by simp
next
  case (loop props H1)
  from assms(3) have a: "a < length (H @ [ObjCell []])" and ne: "a \<noteq> length H" by simp_all
  from forEntries_readProp[OF assms(1) loop(3) a ne]
  have "readProp H1 a k = readProp (H @ [ObjCell []]) a k" .
  also have "\<dots> = readProp H a k" using assms(3) by (simp add: readProp_def nth_append)
  finally have h1: "readProp H1 a k = readProp H a k" .
  from forEntries_length[OF assms(1) loop(3)] assms(3) have "a < length H1" by simp
  then show ?thesis unfolding loop(4) using assms(4) h1 by (simp add: readProp_writeProp)
qed

lemma denotes_extends: "extends H H' \<Longrightarrow> denotes n H v \<Longrightarrow> denotes n H' v"
  unfolding denotes_def using valueOf_extends by fastforce

lemma denotes_mono: "denotes n H v \<Longrightarrow> denotes (Suc n) H v"
  unfolding denotes_def using valueOf_mono by fastforce

lemma denotes_children:
  "denotes (Suc n) H (VRef a) \<Longrightarrow>
     a < length H \<and> (\<forall>(k, v) \<in> set (cellEntries (H ! a)). denotes n H v)"
  unfolding denotes_def[of "Suc n"] using valueOf_children by fastforce

lemma denotes_entries:
  assumes "denotes n H p" and "extends H H'"
  shows "\<exists>props. ownEntriesH H' p = Some props \<and> (\<forall>(k, v) \<in> set props. denotes n H v)"
proof (cases n)
  case 0
  with assms(1) show ?thesis by (simp add: denotes_def)
next
  case (Suc m)
  show ?thesis
  proof (cases p)
    case (VRef b)
    from denotes_children[OF assms(1)[unfolded Suc VRef]]
    have b: "b < length H" and ch: "\<forall>(k, v) \<in> set (cellEntries (H ! b)). denotes m H v" by simp_all
    from extends_nth[OF assms(2) b] extends_length[OF assms(2)] b
    have "ownEntriesH H' p = Some (cellEntries (H ! b))" by (simp add: VRef)
    moreover from ch have "\<forall>(k, v) \<in> set (cellEntries (H ! b)). denotes n H v"
      unfolding Suc by (auto intro: denotes_mono)
    ultimately show ?thesis by blast
  next
    case (VStr t)
    have "\<forall>(k, v) \<in> set (indexed (map (\<lambda>c. VStr [c]) t)). denotes n H v"
      unfolding Suc by (auto simp: indexed_def denotes_def dest!: set_zip_rightD)
    then show ?thesis by (simp add: VStr)
  qed simp_all
qed

subsection \<open>\<open>mapSchema\<close> returns on every tree\<close>

definition returnsOn :: "nat \<Rightarrow> (heap \<Rightarrow> jsval \<Rightarrow> (heap \<times> jsval) option) \<Rightarrow> bool" where
  "returnsOn n f = (\<forall>H v. denotes n H v \<longrightarrow> f H v \<noteq> None)"

lemma returnsOnD:
  assumes "returnsOn n f" and "denotes n H v"
  shows "\<exists>H' r. f H v = Some (H', r)"
proof -
  from assms have "f H v \<noteq> None" unfolding returnsOn_def by (elim allE impE) assumption
  then show ?thesis by (cases "f H v") auto
qed

lemma forEntries_returns:
  assumes "framed f" and "returnsOn n f"
  shows "\<forall>(k, v) \<in> set props. denotes n H0 v \<Longrightarrow> extends H0 H \<Longrightarrow> length H0 \<le> newProps \<Longrightarrow>
         \<exists>H'. forEntries f newProps props H = Some H'"
proof (induction props arbitrary: H)
  case Nil
  then show ?case by simp
next
  case (Cons kv props)
  obtain key val where kv: "kv = (key, val)" by (cases kv)
  with Cons.prems(1) have "denotes n H0 val" by simp
  with Cons.prems(2) have "denotes n H val" by (rule denotes_extends)
  from returnsOnD[OF assms(2) this] obtain H1 r where f: "f H val = Some (H1, r)" by blast
  from framedD[OF assms(1) f] Cons.prems(2) have "extends H0 H1" by (blast intro: extends_trans)
  then have e: "extends H0 (writeProp H1 newProps key r)"
    using Cons.prems(3) by (rule extends_writeProp)
  from Cons.prems(1) have "\<forall>(k, v) \<in> set props. denotes n H0 v" by simp
  from Cons.IH[OF this e Cons.prems(3)] f kv show ?case by simp
qed

lemma propertiesStep_returns:
  assumes "framed f" and "returnsOn n f"
    and "truthyV (readProp H a ''properties'') \<Longrightarrow> denotes n H0 (readProp H a ''properties'')"
    and "extends H0 H"
  shows "\<exists>H'. propertiesStep f H a = Some H'"
proof (cases "truthyV (readProp H a ''properties'')")
  case False
  then show ?thesis by (simp add: propertiesStep_def)
next
  case True
  from denotes_entries[OF assms(3)[OF True] assms(4)] obtain props where
    p: "ownEntriesH H (readProp H a ''properties'') = Some props"
    and d: "\<forall>(k, v) \<in> set props. denotes n H0 v" by blast
  from assms(4) have "extends H0 (H @ [ObjCell []])" by (rule extends_append)
  from forEntries_returns[OF assms(1,2) d this extends_length[OF assms(4)]]
  obtain H1 where "forEntries f (length H) props (H @ [ObjCell []]) = Some H1" ..
  with True p show ?thesis by (simp add: propertiesStep_def)
qed

lemma itemsStep_returns:
  assumes "returnsOn n f"
    and "truthyV (readProp H a ''items'') \<Longrightarrow> denotes n H0 (readProp H a ''items'')"
    and "extends H0 H"
  shows "\<exists>H'. itemsStep f H a = Some H'"
proof (cases "truthyV (readProp H a ''items'')")
  case False
  then show ?thesis by (simp add: itemsStep_def)
next
  case True
  from assms(3) assms(2)[OF True] have "denotes n H (readProp H a ''items'')"
    by (rule denotes_extends)
  from returnsOnD[OF assms(1) this] obtain H1 r where
    "f H (readProp H a ''items'') = Some (H1, r)" by blast
  with True show ?thesis by (simp add: itemsStep_def)
qed

lemma mapSchemaH_step_returns:
  assumes "framed f" and "returnsOn n f"
    and "truthyV (getV entries ''properties'') \<Longrightarrow> denotes n H (getV entries ''properties'')"
    and "truthyV (getV entries ''items'') \<Longrightarrow> denotes n H (getV entries ''items'')"
  shows "\<exists>H1 H2. propertiesStep f (typeStep (H @ [ObjCell entries]) (length H)) (length H) = Some H1 \<and>
           itemsStep f H1 (length H) = Some H2"
proof -
  let ?new = "length H"
  let ?H1 = "H @ [ObjCell entries]"
  let ?H2 = "typeStep ?H1 ?new"
  have new: "?new < length ?H2" by simp
  have e2: "extends H ?H2" by (rule typeStep_extends) (simp_all add: extends_def)
  have p: "readProp ?H2 ?new ''properties'' = getV entries ''properties''"
    by (simp add: readProp_typeStep)
  have "\<exists>H'. propertiesStep f ?H2 ?new = Some H'"
    by (rule propertiesStep_returns[OF assms(1,2) _ e2]) (simp only: p assms(3))
  then obtain H3 where s3: "propertiesStep f ?H2 ?new = Some H3" ..
  have e3: "extends H H3"
    by (rule propertiesStep_extends[OF assms(1) s3 e2]) simp
  have "readProp H3 ?new ''items'' = readProp ?H2 ?new ''items''"
    by (rule propertiesStep_readProp[OF assms(1) s3 new]) simp
  then have i: "readProp H3 ?new ''items'' = getV entries ''items''"
    by (simp add: readProp_typeStep)
  have "\<exists>H'. itemsStep f H3 ?new = Some H'"
    by (rule itemsStep_returns[OF assms(2) _ e3]) (simp only: i assms(4))
  then obtain H4 where "itemsStep f H3 ?new = Some H4" ..
  with s3 show ?thesis by blast
qed

lemma getV_denotes:
  assumes "\<forall>(k, v) \<in> set entries. denotes n H v" and "truthyV (getV entries key)"
  shows "denotes n H (getV entries key)"
proof -
  from getV_cases[of entries key] assms(2) have "(key, getV entries key) \<in> set entries" by auto
  with assms(1) show ?thesis by auto
qed

lemma own_entries_denote:
  assumes "denotes (Suc n) H s" and "truthyV s"
  shows "\<exists>entries. ownEntriesH H s = Some entries \<and>
           (truthyV (getV entries ''properties'') \<longrightarrow> denotes n H (getV entries ''properties'')) \<and>
           (truthyV (getV entries ''items'') \<longrightarrow> denotes n H (getV entries ''items''))"
proof (cases s)
  case (VRef a)
  from denotes_children[OF assms(1)[unfolded VRef]]
  have a: "a < length H" and ch: "\<forall>(k, v) \<in> set (cellEntries (H ! a)). denotes n H v"
    by simp_all
  from a VRef have "ownEntriesH H s = Some (cellEntries (H ! a))" by simp
  with getV_denotes[OF ch] show ?thesis by blast
next
  case (VStr t)
  then show ?thesis by simp
qed (simp_all add: getV_def)

lemma mapSchemaH_returnsOn: "returnsOn n (mapSchemaH n)"
proof (induction n)
  case 0
  then show ?case by (simp add: returnsOn_def denotes_def)
next
  case (Suc n)
  show ?case unfolding returnsOn_def
  proof (intro allI impI)
    fix H s
    assume d: "denotes (Suc n) H s"
    show "mapSchemaH (Suc n) H s \<noteq> None"
    proof (cases "truthyV s")
      case False
      then show ?thesis by simp
    next
      case True
      from own_entries_denote[OF d True] obtain entries where
        e: "ownEntriesH H s = Some entries"
        and p: "truthyV (getV entries ''properties'') \<Longrightarrow> denotes n H (getV entries ''properties'')"
        and i: "truthyV (getV entries ''items'') \<Longrightarrow> denotes n H (getV entries ''items'')"
        by blast
      from mapSchemaH_step_returns[OF mapSchemaH_framed Suc.IH p i]
      obtain H1 H2 where
        "propertiesStep (mapSchemaH n) (typeStep (H @ [ObjCell entries]) (length H)) (length H) = Some H1"
        "itemsStep (mapSchemaH n) H1 (length H) = Some H2" by blast
      with True e show ?thesis by simp
    qed
  qed
qed

text \<open>
  Claim C9.  Let the argument be a truthy value that stands for a tree \<open>j\<close> in the store.
  Then \<open>mapSchema\<close> returns, with the depth of the tree as fuel; what it returns is a
  reference to a new object, at an address that was not allocated before; every cell of
  the old store is as it was, so the new store only has more cells; and the argument still
  stands for \<open>j\<close>.
\<close>

theorem mapSchema_nondestructive:
  assumes "valueOf depth H s = Some j" and "truthyV s"
  shows "\<exists>H' r. mapSchemaH depth H s = Some (H', r) \<and>
           r = VRef (length H) \<and> length H < length H' \<and>
           take (length H) H' = H \<and>
           valueOf depth H' s = Some j"
proof -
  from assms(1) have "denotes depth H s" by (simp add: denotes_def)
  from returnsOnD[OF mapSchemaH_returnsOn this] obtain H' r where
    m: "mapSchemaH depth H s = Some (H', r)" by blast
  from framedD[OF mapSchemaH_framed m] have e: "extends H H'" .
  from mapSchemaH_fresh[OF m assms(2)] have "r = VRef (length H)" "length H < length H'"
    by simp_all
  moreover from e have "take (length H) H' = H" by (rule extends_take)
  moreover from e assms(1) have "valueOf depth H' s = Some j" by (rule valueOf_extends)
  ultimately show ?thesis using m by blast
qed

theorem mapSchema_nondestructive_witness:
  "\<exists>H' r. mapSchemaH 4 demoHeap (VRef 0) = Some (H', r) \<and>
           r = VRef 4 \<and> 4 < length H' \<and> take 4 H' = demoHeap \<and>
           valueOf 4 H' (VRef 0) =
             Some (JObj [(''type'', JStr ''object''),
                         (''properties'', JObj [(''x'', JObj [(''type'', JStr ''string'')])]),
                         (''required'', JArr [JStr ''x'']),
                         (''additionalProperties'', JBool False)])"
proof -
  have v: "valueOf 4 demoHeap (VRef 0) =
             Some (JObj [(''type'', JStr ''object''),
                         (''properties'', JObj [(''x'', JObj [(''type'', JStr ''string'')])]),
                         (''required'', JArr [JStr ''x'']),
                         (''additionalProperties'', JBool False)])"
    by code_simp
  have t: "truthyV (VRef 0)" by simp
  have l: "length demoHeap = 4" by (simp add: demoHeap_def)
  from mapSchema_nondestructive[OF v t] show ?thesis by (simp only: l)
qed

text \<open>
  On the example the copy shares the \<open>required\<close> array with the argument, and the new
  object stands for what the first model, \<open>mapSchema\<close> on trees, makes of the argument.
\<close>

lemma heap_result_on_demo:
  "mapSchemaH 4 demoHeap (VRef 0) =
     Some (demoHeap @
             [ObjCell [(''type'', VStr ''OBJECT''), (''properties'', VRef 5), (''required'', VRef 3)],
              ObjCell [(''x'', VRef 6)],
              ObjCell [(''type'', VStr ''STRING'')]],
           VRef 4)"
  by code_simp

lemma heap_agrees_on_demo:
  "valueOf 4
     (demoHeap @
        [ObjCell [(''type'', VStr ''OBJECT''), (''properties'', VRef 5), (''required'', VRef 3)],
         ObjCell [(''x'', VRef 6)],
         ObjCell [(''type'', VStr ''STRING'')]])
     (VRef 4) =
   map_option mapSchema (valueOf 4 demoHeap (VRef 0))"
  by code_simp

end
